theory Spec2Isabelle
  imports Main
begin

section \<open>Values handled by the worker\<close>

text \<open>
  The worker of \<^verbatim>\<open>main.py\<close> handles whatever \<^verbatim>\<open>response.json()\<close> returns: the posts are
  loosely typed records. A value is modelled as the parsed JSON document; a dictionary is the
  list of its items, looked up by key. Floating-point numbers are left out of the model.
  Strings are lists of 8-bit characters, one character for each code point below 256.
\<close>

datatype json =
    JNull
  | JBool bool
  | JInt int
  | JStr string
  | JList "json list"
  | JDict "(string \<times> json) list"

text \<open>
  The exceptions of class \<^verbatim>\<open>Exception\<close> that the run can meet. \<open>LibraryError\<close> stands for
  the exceptions that come out of the network, the file system and the library, with the text
  of the exception.
\<close>

datatype exn =
    KeyError string
  | TypeError
  | AttributeError
  | LibraryError string

text \<open>Truth value of a Python object, as in \<^verbatim>\<open>if not url\<close> and \<^verbatim>\<open>if not success\<close>.\<close>

fun truthy :: "json \<Rightarrow> bool" where
  "truthy JNull = False"
| "truthy (JBool b) = b"
| "truthy (JInt i) = (i \<noteq> 0)"
| "truthy (JStr s) = (s \<noteq> [])"
| "truthy (JList xs) = (xs \<noteq> [])"
| "truthy (JDict kvs) = (kvs \<noteq> [])"

text \<open>\<^verbatim>\<open>d.get(key, default)\<close> on a dictionary.\<close>

definition dict_get :: "(string \<times> json) list \<Rightarrow> string \<Rightarrow> json \<Rightarrow> json" where
  "dict_get d k dflt = (case map_of d k of None \<Rightarrow> dflt | Some v \<Rightarrow> v)"

text \<open>\<^verbatim>\<open>len(x)\<close>: defined on strings, lists and dictionaries, a \<^verbatim>\<open>TypeError\<close> otherwise.\<close>

fun py_len :: "json \<Rightarrow> exn + int" where
  "py_len (JStr s) = Inr (int (length s))"
| "py_len (JList xs) = Inr (int (length xs))"
| "py_len (JDict kvs) = Inr (int (length kvs))"
| "py_len _ = Inl TypeError"

text \<open>
  The elements that \<^verbatim>\<open>posts.extend(x)\<close> appends: the elements of a list, the keys of a
  dictionary, the characters of a string; any other object is not iterable.
\<close>

fun py_iter :: "json \<Rightarrow> exn + json list" where
  "py_iter (JList xs) = Inr xs"
| "py_iter (JDict kvs) = Inr (map (\<lambda>kv. JStr (fst kv)) kvs)"
| "py_iter (JStr s) = Inr (map (\<lambda>c. JStr [c]) s)"
| "py_iter _ = Inl TypeError"

text \<open>The test \<^verbatim>\<open>total_count == 0\<close>; \<^verbatim>\<open>False == 0\<close> holds in Python.\<close>

fun eq_zero :: "json \<Rightarrow> bool" where
  "eq_zero (JInt i) = (i = 0)"
| "eq_zero (JBool b) = (\<not> b)"
| "eq_zero _ = False"

subsection \<open>Strings\<close>

text \<open>The characters that \<^verbatim>\<open>str.strip()\<close> removes, among the code points below 256.\<close>

definition is_space :: "char \<Rightarrow> bool" where
  "is_space c = (let n = of_char c :: nat in
     (9 \<le> n \<and> n \<le> 13) \<or> (28 \<le> n \<and> n \<le> 32) \<or> n = 133 \<or> n = 160)"

definition strip :: "string \<Rightarrow> string" where
  "strip s = rev (dropWhile is_space (rev (dropWhile is_space s)))"

text \<open>\<^verbatim>\<open>str.lower()\<close> on the code points below 256.\<close>

definition lower_char :: "char \<Rightarrow> char" where
  "lower_char c = (let n = of_char c :: nat in
     if (65 \<le> n \<and> n \<le> 90) \<or> (192 \<le> n \<and> n \<le> 222 \<and> n \<noteq> 215)
     then char_of (n + 32) else c)"

definition lower :: "string \<Rightarrow> string" where
  "lower s = map lower_char s"

text \<open>\<^verbatim>\<open>sub in s\<close> on strings.\<close>

fun starts_with :: "string \<Rightarrow> string \<Rightarrow> bool" where
  "starts_with [] s = True"
| "starts_with (c # cs) [] = False"
| "starts_with (c # cs) (d # ds) = (c = d \<and> starts_with cs ds)"

fun contains :: "string \<Rightarrow> string \<Rightarrow> bool" where
  "contains sub [] = (sub = [])"
| "contains sub (d # ds) = (starts_with sub (d # ds) \<or> contains sub ds)"

text \<open>Decimal numerals, for \<^verbatim>\<open>f"{post_id}"\<close> on an integer.\<close>

fun digits :: "nat \<Rightarrow> string" where
  "digits n = (if n < 10 then [char_of (48 + n)]
     else digits (n div 10) @ [char_of (48 + n mod 10)])"

definition str_int :: "int \<Rightarrow> string" where
  "str_int i = (if i < 0 then CHR ''-'' # digits (nat (- i)) else digits (nat i))"

subsection \<open>Paths\<close>

text \<open>
  \<^verbatim>\<open>os.path.basename\<close>, \<^verbatim>\<open>os.path.splitext\<close> and \<^verbatim>\<open>os.path.join\<close> as \<^verbatim>\<open>posixpath\<close> defines
  them: the separator is the slash.
\<close>

definition basename :: "string \<Rightarrow> string" where
  "basename p = rev (takeWhile (\<lambda>c. c \<noteq> CHR ''/'') (rev p))"

text \<open>
  \<^verbatim>\<open>splitext\<close> splits at the last dot of the last component, unless only dots come before it
  in that component.
\<close>

definition splitext :: "string \<Rightarrow> string \<times> string" where
  "splitext p =
     (let comp = basename p;
          ext = rev (takeWhile (\<lambda>c. c \<noteq> CHR ''.'') (rev comp));
          stem = take (length comp - length ext - 1) comp
      in if CHR ''.'' \<in> set comp \<and> (\<exists>c \<in> set stem. c \<noteq> CHR ''.'')
         then (take (length p - length ext - 1) p, CHR ''.'' # ext)
         else (p, []))"

definition path_join :: "string \<Rightarrow> string \<Rightarrow> string" where
  "path_join a b =
     (if starts_with ''/'' b then b
      else if a = [] \<or> last a = CHR ''/'' then a @ b
      else a @ ''/'' @ b)"

text \<open>
  The substitution \<^verbatim>\<open>re.sub(r'[<>:"/\\|?*]', '_', s)\<close>: every character of the class becomes
  an underscore.
\<close>

definition illegal_chars :: "char set" where
  "illegal_chars = {CHR ''<'', CHR ''>'', CHR '':'', CHR 0x22, CHR ''/'', CHR 0x5C,
     CHR ''|'', CHR ''?'', CHR ''*''}"

definition sanitize :: "string \<Rightarrow> string" where
  "sanitize s = map (\<lambda>c. if c \<in> illegal_chars then CHR ''_'' else c) s"

section \<open>The library and the outside world\<close>

text \<open>
  The arguments handed to \<^verbatim>\<open>str.format\<close>: integers, strings, parsed values, the type object
  \<^verbatim>\<open>type(data)\<close>, an exception (the source passes \<^verbatim>\<open>str(e)\<close>), and the literal default text of
  the source for an API failure without a message.
\<close>

datatype arg =
    AInt int
  | AStr string
  | AJson json
  | ATypeOf json
  | AExn exn
  | ADefaultApiMessage

text \<open>
  Four library functions are parameters of the model: \<^verbatim>\<open>str.format\<close> on a template, the
  \<^verbatim>\<open>repr\<close> of a list or dictionary inside an f-string, \<^verbatim>\<open>urlparse(url).path\<close> on a
  string, and the conversion that the signal \<^verbatim>\<open>progressUpdated\<close>, declared with two
  integers, applies to a parsed value that is emitted as its second argument: the integer
  that the receiver gets, or the exception of \<^verbatim>\<open>emit\<close>. Each may raise an exception where
  the library does.
\<close>

record pylib =
  str_format :: "string \<Rightarrow> arg list \<Rightarrow> exn + string"
  repr_container :: "json \<Rightarrow> string"
  urlparse_path :: "string \<Rightarrow> exn + string"
  signal_int :: "json \<Rightarrow> exn + int"

text \<open>\<^verbatim>\<open>f"{x}"\<close> on a parsed value.\<close>

definition py_str :: "pylib \<Rightarrow> json \<Rightarrow> string" where
  "py_str L v = (case v of
       JNull \<Rightarrow> ''None''
     | JBool b \<Rightarrow> (if b then ''True'' else ''False'')
     | JInt i \<Rightarrow> str_int i
     | JStr s \<Rightarrow> s
     | _ \<Rightarrow> repr_container L v)"

text \<open>
  \<^verbatim>\<open>urlparse(url)\<close> on the object found under \<^verbatim>\<open>file_url\<close>: an object that is not a string
  has no \<^verbatim>\<open>decode\<close> attribute.
\<close>

definition url_path :: "pylib \<Rightarrow> json \<Rightarrow> exn + string" where
  "url_path L url = (case url of JStr s \<Rightarrow> urlparse_path L s | _ \<Rightarrow> Inl AttributeError)"

text \<open>
  The translator is the dictionary \<^verbatim>\<open>self.tr\<close> of templates; \<^verbatim>\<open>self.tr[key]\<close> raises
  \<^verbatim>\<open>KeyError\<close> on a key that is absent.
\<close>

type_synonym translator = "string \<rightharpoonup> string"

definition tr_lookup :: "translator \<Rightarrow> string \<Rightarrow> exn + string" where
  "tr_lookup t key = (case t key of None \<Rightarrow> Inl (KeyError key) | Some text \<Rightarrow> Inr text)"

text \<open>
  What the run does that can be observed from outside, in order. A status event carries the
  text that is emitted; the key of the template and the arguments that gave the text are kept
  beside it.
\<close>

datatype action =
    StatusChanged string "arg list" string
  | ProgressUpdated int int
  | HttpGet "(string \<times> json) list"
  | MakeDirs string
  | FileSaved json string
  | FileFailed json string

text \<open>
  The status event of \<^verbatim>\<open>self.tr[key].format(args)\<close>, and of \<^verbatim>\<open>self.tr[key]\<close> emitted as it
  is. The lookup and the formatting may raise.
\<close>

definition status :: "pylib \<Rightarrow> translator \<Rightarrow> string \<Rightarrow> arg list \<Rightarrow> exn + action" where
  "status L t key args =
     (case t key of
       None \<Rightarrow> Inl (KeyError key)
     | Some template \<Rightarrow>
         (case str_format L template args of
           Inl e \<Rightarrow> Inl e
         | Inr text \<Rightarrow> Inr (StatusChanged key args text)))"

definition status_plain :: "translator \<Rightarrow> string \<Rightarrow> exn + action" where
  "status_plain t key =
     (case t key of None \<Rightarrow> Inl (KeyError key) | Some text \<Rightarrow> Inr (StatusChanged key [] text))"

text \<open>
  An HTTP response: the status code, the body text, and what \<^verbatim>\<open>response.json()\<close> gives, the
  parsed value or the text of the \<^verbatim>\<open>ValueError\<close>.
\<close>

record response =
  status_code :: int
  body_text :: string
  body_json :: "string + json"

text \<open>
  The outside world answers the three effects of the run: the page request with its query
  parameters, \<^verbatim>\<open>os.makedirs(path, exist_ok=True)\<close>, and the block that requests a file and
  writes it (lines 153 to 158). The last two are told the number of the item being processed,
  so that the same path or address may be answered differently later in the run.
\<close>

record world =
  requests_get :: "(string \<times> json) list \<Rightarrow> exn + response"
  os_makedirs :: "int \<Rightarrow> string \<Rightarrow> exn option"
  save_file :: "int \<Rightarrow> json \<Rightarrow> string \<Rightarrow> exn option"

text \<open>
  How a block of statements ends: it falls through with a value, it returns from
  \<^verbatim>\<open>run\<close>, or it raises. The body of the \<^verbatim>\<open>while\<close> loop falls through either to the next
  iteration or, by \<^verbatim>\<open>break\<close>, out of the loop.
\<close>

datatype 'a ctl = Next 'a | Return | Raise exn

datatype 'a iter = Again 'a | Done 'a

text \<open>The inputs of a run, as the constructor of \<^verbatim>\<open>Worker\<close> stores them.\<close>

record worker =
  tags :: string
  user_id :: string
  api_key :: string
  download_dir :: string
  allowed_exts :: "string set"
  tr :: translator

section \<open>The fetch phase\<close>

text \<open>The local variables of the \<^verbatim>\<open>while\<close> loop (lines 48 to 51).\<close>

record fetch_state =
  posts :: "json list"
  total_count :: json
  has_total :: bool
  pid :: int

definition init_fetch :: fetch_state where
  "init_fetch = \<lparr>posts = [], total_count = JInt 0, has_total = False, pid = 0\<rparr>"

text \<open>The dictionary \<^verbatim>\<open>params_base\<close> (lines 35 to 46), as the list of its items.\<close>

definition params_base :: "worker \<Rightarrow> (string \<times> json) list" where
  "params_base w =
     [(''page'', JStr ''dapi''), (''s'', JStr ''post''), (''q'', JStr ''index''),
      (''limit'', JInt 1000), (''json'', JInt 1), (''tags'', JStr (tags w))]
     @ (if user_id w \<noteq> [] then [(''user_id'', JStr (user_id w))] else [])
     @ (if api_key w \<noteq> [] then [(''api_key'', JStr (api_key w))] else [])"

text \<open>
  \<^verbatim>\<open>self.statusChanged.emit(...); return\<close>: the lookup or the formatting of the message may
  raise instead.
\<close>

definition status_return :: "exn + action \<Rightarrow> action list \<times> 'a ctl" where
  "status_return r = (case r of Inl e \<Rightarrow> ([], Raise e) | Inr a \<Rightarrow> ([a], Return))"

text \<open>
  Lines 57 to 90: the response is checked and its post list is read. The block falls through
  with \<^verbatim>\<open>new_posts\<close> and the state, in which a keyed response has stored the total.
\<close>

definition classify_response ::
  "pylib \<Rightarrow> translator \<Rightarrow> fetch_state \<Rightarrow> response \<Rightarrow> action list \<times> (json \<times> fetch_state) ctl" where
  "classify_response L t st resp =
     (let response_text = take 200 (strip (body_text resp)) in
      if status_code resp \<noteq> 200 then
        status_return (status L t ''http_error'' [AInt (status_code resp), AStr response_text])
      else if response_text = [] then
        status_return (status L t ''empty_response'' [AInt (status_code resp)])
      else case body_json resp of
        Inl detail \<Rightarrow>
          if contains ''Missing authentication'' response_text
             \<or> contains ''login_required'' (lower response_text)
          then status_return (status L t ''json_error_auth'' [AStr response_text])
          else status_return (status L t ''json_error'' [AStr detail, AStr response_text])
      | Inr data \<Rightarrow>
          (case data of
            JList xs \<Rightarrow> ([], Next (data, st))
          | JDict d \<Rightarrow>
              if \<not> truthy (dict_get d ''success'' (JBool True)) then
                status_return (status L t ''api_error''
                  [case map_of d ''message'' of None \<Rightarrow> ADefaultApiMessage | Some m \<Rightarrow> AJson m])
              else
                (let new_posts = dict_get d ''post'' (JList []) in
                 if eq_zero (total_count st) then
                   (case dict_get d ''@attributes'' (JDict []) of
                     JDict attributes \<Rightarrow>
                       (case py_len new_posts of
                         Inl e \<Rightarrow> ([], Raise e)
                       | Inr n \<Rightarrow>
                           ([], Next (new_posts,
                              st\<lparr>total_count := dict_get attributes ''count'' (JInt n),
                                 has_total := True\<rparr>)))
                   | _ \<Rightarrow> ([], Raise AttributeError))
                 else ([], Next (new_posts, st)))
          | _ \<Rightarrow>
              status_return (status L t ''unexpected_type'' [ATypeOf data, AStr response_text])))"

text \<open>
  Lines 92 to 102: the posts of the page are appended, the progress and the status are emitted,
  and a page of fewer than 1000 records leaves the loop. The count of the posts and the
  literal \<^verbatim>\<open>0\<close> are emitted as they are; the stored total, an object of the response, goes
  through the conversion of the signal.
\<close>

definition record_page ::
  "pylib \<Rightarrow> translator \<Rightarrow> fetch_state \<Rightarrow> json \<Rightarrow> action list \<times> fetch_state iter ctl" where
  "record_page L t st new_posts =
     (case py_iter new_posts of
       Inl e \<Rightarrow> ([], Raise e)
     | Inr elems \<Rightarrow>
         (let st1 = st\<lparr>posts := posts st @ elems\<rparr>;
              current_count = int (length (posts st1))
          in case (if \<not> has_total st1 then tr_lookup t ''pagination_note''
                   else Inr ('' / '' @ py_str L (total_count st1))) of
            Inl e \<Rightarrow> ([], Raise e)
          | Inr total_str \<Rightarrow>
              (case (if has_total st1 then signal_int L (total_count st1) else Inr 0) of
                Inl e \<Rightarrow> ([], Raise e)
              | Inr shown \<Rightarrow>
                  (case status L t ''received_posts'' [AInt current_count, AStr total_str] of
                    Inl e \<Rightarrow> ([ProgressUpdated current_count shown], Raise e)
                  | Inr s \<Rightarrow>
                      ([ProgressUpdated current_count shown, s],
                       case py_len new_posts of
                         Inl e \<Rightarrow> Raise e
                       | Inr n \<Rightarrow>
                           if n < 1000 then Next (Done st1)
                           else Next (Again (st1\<lparr>pid := pid st1 + 1\<rparr>)))))))"

text \<open>One iteration of the \<^verbatim>\<open>while\<close> loop (lines 54 to 102).\<close>

definition fetch_page ::
  "pylib \<Rightarrow> worker \<Rightarrow> world \<Rightarrow> fetch_state \<Rightarrow> action list \<times> fetch_state iter ctl" where
  "fetch_page L w env st =
     (let params = params_base w @ [(''pid'', JInt (pid st))] in
      case requests_get env params of
        Inl e \<Rightarrow> ([HttpGet params], Raise e)
      | Inr resp \<Rightarrow>
          (case classify_response L (tr w) st resp of
            (a, Next (new_posts, st1)) \<Rightarrow>
              (case record_page L (tr w) st1 new_posts of (b, r) \<Rightarrow> (HttpGet params # a @ b, r))
          | (a, Return) \<Rightarrow> (HttpGet params # a, Return)
          | (a, Raise e) \<Rightarrow> (HttpGet params # a, Raise e)))"

text \<open>
  The loop \<^verbatim>\<open>while True\<close>: it need not end, since the server may answer full pages for ever.
  The actions done so far are passed along; the loop ends with the posts collected.
\<close>

partial_function (option) fetch_loop ::
  "pylib \<Rightarrow> worker \<Rightarrow> world \<Rightarrow> action list \<Rightarrow> fetch_state \<Rightarrow> (action list \<times> json list ctl) option" where
  "fetch_loop L w env acts st =
     (case fetch_page L w env st of
       (a, Next (Again st1)) \<Rightarrow> fetch_loop L w env (acts @ a) st1
     | (a, Next (Done st1)) \<Rightarrow> Some (acts @ a, Next (posts st1))
     | (a, Return) \<Rightarrow> Some (acts @ a, Return)
     | (a, Raise e) \<Rightarrow> Some (acts @ a, Raise e))"

section \<open>The download phase\<close>

text \<open>
  Lines 126 to 133: the name of the file, from the path of the address and the identifier of
  the post.
\<close>

definition derive_filename :: "pylib \<Rightarrow> json \<Rightarrow> string \<Rightarrow> string" where
  "derive_filename L post_id path =
     (let filename = basename path in
      if filename = [] \<or> CHR ''.'' \<notin> set filename then
        (let ext = (if snd (splitext path) = [] then ''.jpg'' else snd (splitext path))
         in py_str L post_id @ ext)
      else sanitize (py_str L post_id @ ''_'' @ filename))"

definition video_exts :: "string set" where
  "video_exts = {''.mp4'', ''.webm'', ''.avi'', ''.mov'', ''.swf''}"

text \<open>Lines 141 to 146: the subdirectory of an extension.\<close>

definition subdir_of :: "string \<Rightarrow> string" where
  "subdir_of ext =
     (if ext = ''.gif'' then ''GIF'' else if ext \<in> video_exts then ''videos'' else ''images'')"

text \<open>The counters of the download loop (lines 109 and 110).\<close>

record counters =
  processed :: int
  downloaded :: int

text \<open>
  Lines 152 to 164: the file is requested and written; on success the counter goes up and
  every tenth processed item reports the counts. Any exception of the block, also one raised
  while the counts are reported, is answered by the download error status. The progress event
  ends the iteration.
\<close>

definition attempt_download ::
  "pylib \<Rightarrow> worker \<Rightarrow> world \<Rightarrow> int \<Rightarrow> counters \<Rightarrow> json \<Rightarrow> string \<Rightarrow> action list \<times> counters ctl" where
  "attempt_download L w env total_posts c url filepath =
     (let on_error = (\<lambda>acts e c'.
            case status L (tr w) ''download_error'' [AJson url, AExn e] of
              Inl e' \<Rightarrow> (acts, Raise e')
            | Inr s \<Rightarrow> (acts @ [s, ProgressUpdated (processed c') total_posts], Next c'))
      in case save_file env (processed c) url filepath of
        Some e \<Rightarrow> on_error [FileFailed url filepath] e c
      | None \<Rightarrow>
          (let c2 = c\<lparr>downloaded := downloaded c + 1\<rparr> in
           if processed c2 mod 10 = 0 then
             (case status L (tr w) ''processed_downloaded''
                     [AInt (processed c2), AInt total_posts, AInt (downloaded c2)] of
               Inl e \<Rightarrow> on_error [FileSaved url filepath] e c2
             | Inr s \<Rightarrow>
                 ([FileSaved url filepath, s, ProgressUpdated (processed c2) total_posts],
                  Next c2))
           else ([FileSaved url filepath, ProgressUpdated (processed c2) total_posts], Next c2)))"

text \<open>The body of the \<^verbatim>\<open>for\<close> loop (lines 117 to 164).\<close>

definition download_item ::
  "pylib \<Rightarrow> worker \<Rightarrow> world \<Rightarrow> int \<Rightarrow> counters \<Rightarrow> json \<Rightarrow> action list \<times> counters ctl" where
  "download_item L w env total_posts c post =
     (let c1 = c\<lparr>processed := processed c + 1\<rparr>;
          skip = ([ProgressUpdated (processed c1) total_posts], Next c1)
      in case post of
        JDict d \<Rightarrow>
          (let url = dict_get d ''file_url'' JNull in
           if \<not> truthy url then skip
           else
             (let post_id = dict_get d ''id'' (JStr []) in
              case url_path L url of
                Inl e \<Rightarrow> ([], Raise e)
              | Inr path \<Rightarrow>
                  (let filename = derive_filename L post_id path;
                       ext = lower (snd (splitext filename))
                   in if ext \<notin> allowed_exts w then skip
                      else
                        (let subdir_path = path_join (download_dir w) (subdir_of ext) in
                         case os_makedirs env (processed c1) subdir_path of
                           Some e \<Rightarrow> ([MakeDirs subdir_path], Raise e)
                         | None \<Rightarrow>
                             (case attempt_download L w env total_posts c1 url
                                     (path_join subdir_path filename) of
                               (a, r) \<Rightarrow> (MakeDirs subdir_path # a, r))))))
      | _ \<Rightarrow> skip)"

text \<open>The loop \<^verbatim>\<open>for post in posts\<close>; an exception that leaves the body ends it.\<close>

fun download_loop ::
  "pylib \<Rightarrow> worker \<Rightarrow> world \<Rightarrow> int \<Rightarrow> counters \<Rightarrow> json list \<Rightarrow> action list \<times> counters ctl" where
  "download_loop L w env total_posts c [] = ([], Next c)"
| "download_loop L w env total_posts c (post # rest) =
     (case download_item L w env total_posts c post of
       (a, Next c1) \<Rightarrow>
         (case download_loop L w env total_posts c1 rest of (b, r) \<Rightarrow> (a @ b, r))
     | (a, Return) \<Rightarrow> (a, Return)
     | (a, Raise e) \<Rightarrow> (a, Raise e))"

text \<open>Lines 104 to 167: what follows the fetch loop.\<close>

definition download_phase ::
  "pylib \<Rightarrow> worker \<Rightarrow> world \<Rightarrow> json list \<Rightarrow> action list \<times> unit ctl" where
  "download_phase L w env ps =
     (if length ps = 0 then status_return (status_plain (tr w) ''no_posts'')
      else case status_plain (tr w) ''starting_download'' of
        Inl e \<Rightarrow> ([], Raise e)
      | Inr s \<Rightarrow>
          (let total_posts = int (length ps) in
           case download_loop L w env total_posts \<lparr>processed = 0, downloaded = 0\<rparr> ps of
             (a, Next c) \<Rightarrow>
               (let skipped = total_posts - downloaded c in
                case status L (tr w) ''finished''
                       [AInt (processed c), AInt total_posts, AInt (downloaded c), AInt skipped,
                        AStr (download_dir w)] of
                  Inl e \<Rightarrow> (s # a, Raise e)
                | Inr fin \<Rightarrow> (s # a @ [fin], Next ()))
           | (a, Return) \<Rightarrow> (s # a, Return)
           | (a, Raise e) \<Rightarrow> (s # a, Raise e)))"

section \<open>The run\<close>

text \<open>The body of the \<^verbatim>\<open>try\<close> statement of \<^verbatim>\<open>Worker.run\<close> (lines 34 to 167).\<close>

definition run_body :: "pylib \<Rightarrow> worker \<Rightarrow> world \<Rightarrow> (action list \<times> unit ctl) option" where
  "run_body L w env =
     (case status_plain (tr w) ''getting_posts'' of
       Inl e \<Rightarrow> Some ([], Raise e)
     | Inr s \<Rightarrow>
         (case fetch_loop L w env [s] init_fetch of
           None \<Rightarrow> None
         | Some (a, Next ps) \<Rightarrow>
             (case download_phase L w env ps of (b, r) \<Rightarrow> Some (a @ b, r))
         | Some (a, Return) \<Rightarrow> Some (a, Return)
         | Some (a, Raise e) \<Rightarrow> Some (a, Raise e)))"

text \<open>
  \<^verbatim>\<open>Worker.run\<close>: an exception of the body is reported by the handler of line 168, whose own
  lookup and formatting may raise; that exception leaves \<^verbatim>\<open>run\<close>. The result is the list of
  actions and the exception that reaches the caller, if any; \<open>None\<close> is a run that does not
  end.
\<close>

definition run :: "pylib \<Rightarrow> worker \<Rightarrow> world \<Rightarrow> (action list \<times> exn option) option" where
  "run L w env =
     (case run_body L w env of
       None \<Rightarrow> None
     | Some (a, Raise e) \<Rightarrow>
         (case status L (tr w) ''unexpected_error'' [AExn e] of
           Inl e' \<Rightarrow> Some (a, Some e')
         | Inr s \<Rightarrow> Some (a @ [s], None))
     | Some (a, _) \<Rightarrow> Some (a, None))"

section \<open>A library instance and inputs for concrete runs\<close>

text \<open>
  For the evaluation of concrete runs the library functions are instantiated where their
  results are plain: \<^verbatim>\<open>str.format\<close> returns a template without braces as it is, the
  \<^verbatim>\<open>repr\<close> of an empty list or dictionary is a pair of brackets, the path of a plain
  \<^verbatim>\<open>http\<close> address, of printable ASCII characters without query, fragment, parameters or
  brackets, is what follows the host, and the signal passes an integer of 32 bits as it is.
  Outside of these inputs the instance answers an error or the empty brackets; the runs
  below stay inside.
\<close>

definition plain_format :: "string \<Rightarrow> arg list \<Rightarrow> exn + string" where
  "plain_format template args =
     (if CHR ''{'' \<in> set template \<or> CHR ''}'' \<in> set template
      then Inl (LibraryError ''format'') else Inr template)"

definition plain_repr :: "json \<Rightarrow> string" where
  "plain_repr v = (case v of JDict kvs \<Rightarrow> ''{}'' | _ \<Rightarrow> ''[]'')"

definition plain_char :: "char \<Rightarrow> bool" where
  "plain_char c = (32 < (of_char c :: nat) \<and> (of_char c :: nat) < 127
     \<and> c \<notin> {CHR ''?'', CHR ''#'', CHR '';'', CHR ''['', CHR '']''})"

definition plain_urlparse_path :: "string \<Rightarrow> exn + string" where
  "plain_urlparse_path url =
     (if starts_with ''http://'' url \<and> list_all plain_char url
      then Inr (dropWhile (\<lambda>c. c \<noteq> CHR ''/'') (drop 7 url))
      else Inl (LibraryError ''address''))"

definition plain_signal_int :: "json \<Rightarrow> exn + int" where
  "plain_signal_int v =
     (case v of
       JInt i \<Rightarrow> if - 2147483648 \<le> i \<and> i < 2147483648 then Inr i
                 else Inl (LibraryError ''signal'')
     | _ \<Rightarrow> Inl (LibraryError ''signal''))"

definition plain_lib :: pylib where
  "plain_lib = \<lparr>str_format = plain_format, repr_container = plain_repr,
     urlparse_path = plain_urlparse_path, signal_int = plain_signal_int\<rparr>"

text \<open>A translator with a template for every key of the run, and a worker that uses it.\<close>

definition full_tr :: translator where
  "full_tr = map_of
     [(''getting_posts'', ''Getting posts''),
      (''http_error'', ''HTTP error''),
      (''empty_response'', ''Empty response''),
      (''json_error_auth'', ''Authentication required''),
      (''json_error'', ''Invalid JSON''),
      (''api_error'', ''API error''),
      (''unexpected_type'', ''Unexpected type''),
      (''pagination_note'', '' (more pages)''),
      (''received_posts'', ''Received posts''),
      (''no_posts'', ''No posts''),
      (''starting_download'', ''Starting download''),
      (''processed_downloaded'', ''Processed''),
      (''download_error'', ''Download error''),
      (''finished'', ''Finished''),
      (''unexpected_error'', ''Unexpected error'')]"

definition demo_worker :: worker where
  "demo_worker = \<lparr>tags = ''cat'', user_id = [], api_key = [], download_dir = ''downloads/cat'',
     allowed_exts = {''.jpg''}, tr = full_tr\<rparr>"

text \<open>A world in which every page request is answered by the given response, every directory
  can be made and every file is saved.\<close>

definition world_of :: "response \<Rightarrow> world" where
  "world_of resp = \<lparr>requests_get = (\<lambda>params. Inr resp), os_makedirs = (\<lambda>i path. None),
     save_file = (\<lambda>i url path. None)\<rparr>"

text \<open>The answer of a server that has no post: the empty list.\<close>

definition empty_page :: response where
  "empty_page = \<lparr>status_code = 200, body_text = ''[]'', body_json = Inr (JList [])\<rparr>"

text \<open>A batch of two posts: a record that is no dictionary, and a post with a picture.\<close>

definition two_posts :: "json list" where
  "two_posts = [JNull, JDict [(''id'', JInt 7), (''file_url'', JStr ''http://h/a.jpg'')]]"

text \<open>A post with a picture whose extension the worker below does not allow.\<close>

definition png_post :: json where
  "png_post = JDict [(''id'', JInt 8), (''file_url'', JStr ''http://h/b.png'')]"

text \<open>The counters at the start of the download loop.\<close>

definition start_counters :: counters where
  "start_counters = \<lparr>processed = 0, downloaded = 0\<rparr>"

text \<open>A batch of ten records of which none is a dictionary.\<close>

definition ten_records :: "json list" where
  "ten_records = [JNull, JNull, JNull, JNull, JNull, JNull, JNull, JNull, JNull, JNull]"

text \<open>The counters after nine items, of which four were saved.\<close>

definition nine_done :: counters where
  "nine_done = \<lparr>processed = 9, downloaded = 4\<rparr>"

text \<open>A post with a picture whose extension is allowed.\<close>

definition jpg_post :: json where
  "jpg_post = JDict [(''id'', JInt 7), (''file_url'', JStr ''http://h/a.jpg'')]"

text \<open>A post whose identifier is a string with a colon, and whose address has no extension.\<close>

definition colon_post :: json where
  "colon_post = JDict [(''id'', JStr ''a:b''), (''file_url'', JStr ''http://h/x:y'')]"

text \<open>A post without identifier, with a picture.\<close>

definition noid_post :: json where
  "noid_post = JDict [(''file_url'', JStr ''http://h/a.jpg'')]"

text \<open>A post without identifier whose address has no extension.\<close>

definition noid_noext_post :: json where
  "noid_noext_post = JDict [(''file_url'', JStr ''http://h/pic'')]"



text \<open>A post whose address is a number, not a string.\<close>

definition numeric_url_post :: json where
  "numeric_url_post = JDict [(''id'', JInt 7), (''file_url'', JInt 5)]"

text \<open>A post with identifier whose address has no extension.\<close>

definition noext_post :: json where
  "noext_post = JDict [(''id'', JInt 7), (''file_url'', JStr ''http://h/pic'')]"











text \<open>The pairs of the progress events of a list of actions, in order.\<close>

fun progress_of :: "action list \<Rightarrow> (int \<times> int) list" where
  "progress_of [] = []"
| "progress_of (ProgressUpdated p t # rest) = (p, t) # progress_of rest"
| "progress_of (x # rest) = progress_of rest"

text \<open>
  What a status event of the download loop may be, seen from the counters \<open>c\<close> at the start of
  a run of \<open>n\<close> items: the event of the error key \<open>ke\<close>, or the event of the report key
  \<open>kp\<close> with the counts of a tenth item.
\<close>

definition report_ok ::
  "string \<Rightarrow> string \<Rightarrow> int \<Rightarrow> counters \<Rightarrow> nat \<Rightarrow> string \<Rightarrow> arg list \<Rightarrow> bool" where
  "report_ok ke kp tp c n k args \<longleftrightarrow>
     k = ke \<or>
     (\<exists>p d. k = kp \<and> args = [AInt p, AInt tp, AInt d]
        \<and> processed c < p \<and> p \<le> processed c + int n \<and> p mod 10 = 0
        \<and> downloaded c < d \<and> d \<le> downloaded c + (p - processed c))"

section \<open>Properties of the download phase\<close>

lemma progress_of_append: "progress_of (a @ b) = progress_of a @ progress_of b"
  by (induction a rule: progress_of.induct) simp_all

lemma status_Inr: "status L t key args = Inr x \<Longrightarrow> \<exists>text. x = StatusChanged key args text"
  by (auto simp: status_def split: option.splits sum.splits)

lemma status_plain_Inr: "status_plain t key = Inr x \<Longrightarrow> \<exists>text. x = StatusChanged key [] text"
  by (auto simp: status_plain_def split: option.splits)

lemma attempt_download_shape:
  assumes "attempt_download L w env tp c url fp = (a, r)"
  shows "(\<exists>f e. a = [f] \<and> (f = FileFailed url fp \<or> f = FileSaved url fp) \<and> r = Raise e)
       \<or> (\<exists>t. a = [FileFailed url fp, StatusChanged ''download_error'' [AJson url, AExn (the (save_file env (processed c) url fp))] t, ProgressUpdated (processed c) tp]
              \<and> save_file env (processed c) url fp \<noteq> None \<and> r = Next c)
       \<or> (\<exists>t e. a = [FileSaved url fp, StatusChanged ''download_error'' [AJson url, AExn e] t, ProgressUpdated (processed c) tp]
              \<and> save_file env (processed c) url fp = None \<and> processed c mod 10 = 0 \<and> r = Next (c\<lparr>downloaded := downloaded c + 1\<rparr>))
       \<or> (\<exists>t. a = [FileSaved url fp, StatusChanged ''processed_downloaded'' [AInt (processed c), AInt tp, AInt (downloaded c + 1)] t, ProgressUpdated (processed c) tp]
              \<and> save_file env (processed c) url fp = None \<and> processed c mod 10 = 0 \<and> r = Next (c\<lparr>downloaded := downloaded c + 1\<rparr>))
       \<or> (a = [FileSaved url fp, ProgressUpdated (processed c) tp]
              \<and> save_file env (processed c) url fp = None \<and> processed c mod 10 \<noteq> 0 \<and> r = Next (c\<lparr>downloaded := downloaded c + 1\<rparr>))"
proof (cases "save_file env (processed c) url fp")
  case (Some e)
  then show ?thesis using assms
    by (cases "status L (tr w) ''download_error'' [AJson url, AExn e]")
       (auto simp: attempt_download_def dest: status_Inr)
next
  case None
  show ?thesis
  proof (cases "processed c mod 10 = 0")
    case False
    then show ?thesis using assms None by (simp add: attempt_download_def)
  next
    case True
    show ?thesis
    proof (cases "status L (tr w) ''processed_downloaded'' [AInt (processed c), AInt tp, AInt (downloaded c + 1)]")
      case (Inr s)
      then show ?thesis using assms None True by (auto simp: attempt_download_def dest: status_Inr)
    next
      case (Inl e)
      then show ?thesis using assms None True
        by (cases "status L (tr w) ''download_error'' [AJson url, AExn e]")
           (auto simp: attempt_download_def dest: status_Inr)
    qed
  qed
qed


lemma download_item_shape:
  assumes "download_item L w env tp c post = (a, r)"
  shows "(a = [ProgressUpdated (processed c + 1) tp] \<and> r = Next (c\<lparr>processed := processed c + 1\<rparr>))
       \<or> (a = [] \<and> (\<exists>e. r = Raise e))
       \<or> (\<exists>ext e. ext \<in> allowed_exts w \<and> a = [MakeDirs (path_join (download_dir w) (subdir_of ext))] \<and> r = Raise e)
       \<or> (\<exists>ext url fp b. ext \<in> allowed_exts w \<and> a = MakeDirs (path_join (download_dir w) (subdir_of ext)) # b
              \<and> attempt_download L w env tp (c\<lparr>processed := processed c + 1\<rparr>) url fp = (b, r))"
proof (cases post)
  case (JDict d)
  show ?thesis
  proof (cases "truthy (dict_get d ''file_url'' JNull)")
    case False
    then show ?thesis using assms JDict by (auto simp: download_item_def)
  next
    case True
    show ?thesis
    proof (cases "url_path L (dict_get d ''file_url'' JNull)")
      case (Inl e)
      then show ?thesis using assms JDict True by (auto simp: download_item_def)
    next
      case (Inr path)
      let ?ext = "lower (snd (splitext (derive_filename L (dict_get d ''id'' (JStr [])) path)))"
      show ?thesis
      proof (cases "?ext \<in> allowed_exts w")
        case False
        then show ?thesis using assms JDict True Inr by (auto simp: download_item_def Let_def)
      next
        case ok: True
        show ?thesis
        proof (cases "os_makedirs env (processed c + 1) (path_join (download_dir w) (subdir_of ?ext))")
          case (Some e)
          then show ?thesis using assms JDict True Inr ok
            by (auto simp: download_item_def Let_def)
        next
          case None
          then show ?thesis using assms JDict True Inr ok
            by (auto simp: download_item_def Let_def split: prod.splits)
        qed
      qed
    qed
  qed
qed (use assms in \<open>auto simp: download_item_def\<close>)

lemma download_item_events:
  assumes "download_item L w env tp c post = (a, r)"
  shows "\<forall>p t. ProgressUpdated p t \<in> set a \<longrightarrow> p = processed c + 1 \<and> t = tp"
    and "\<forall>k args s. StatusChanged k args s \<in> set a \<longrightarrow>
            k = ''download_error'' \<or>
            (k = ''processed_downloaded'' \<and> (processed c + 1) mod 10 = 0
              \<and> args = [AInt (processed c + 1), AInt tp, AInt (downloaded c + 1)])"
    and "r \<noteq> Return"
    and "\<forall>c'. r = Next c' \<longrightarrow> processed c' = processed c + 1 \<and> downloaded c \<le> downloaded c'
            \<and> downloaded c' \<le> downloaded c + 1 \<and> progress_of a = [(processed c + 1, tp)]"
proof -
  let ?c1 = "c\<lparr>processed := processed c + 1\<rparr>"
  note sh = download_item_shape[OF assms]
  note at = attempt_download_shape[of L w env tp ?c1]
  show "\<forall>p t. ProgressUpdated p t \<in> set a \<longrightarrow> p = processed c + 1 \<and> t = tp"
    using sh at by (elim disjE exE conjE) (fastforce)+
  show "\<forall>k args s. StatusChanged k args s \<in> set a \<longrightarrow>
            k = ''download_error'' \<or>
            (k = ''processed_downloaded'' \<and> (processed c + 1) mod 10 = 0
              \<and> args = [AInt (processed c + 1), AInt tp, AInt (downloaded c + 1)])"
    using sh at by (elim disjE exE conjE) (fastforce)+
  show "r \<noteq> Return"
    using sh at by (elim disjE exE conjE) (fastforce)+
  show "\<forall>c'. r = Next c' \<longrightarrow> processed c' = processed c + 1 \<and> downloaded c \<le> downloaded c'
            \<and> downloaded c' \<le> downloaded c + 1 \<and> progress_of a = [(processed c + 1, tp)]"
    using sh at by (elim disjE exE conjE) (fastforce)+
qed



lemma download_loop_Cons_cases:
  assumes "download_loop L w env tp c (post # rest) = (a, r)"
  obtains (stop) e where "download_item L w env tp c post = (a, Raise e)" "r = Raise e"
        | (go) a1 c1 b where "download_item L w env tp c post = (a1, Next c1)"
            "download_loop L w env tp c1 rest = (b, r)" "a = a1 @ b"
proof -
  obtain a1 r1 where item: "download_item L w env tp c post = (a1, r1)" by fastforce
  show thesis
  proof (cases r1)
    case (Next c1)
    obtain b r2 where rest: "download_loop L w env tp c1 rest = (b, r2)" by fastforce
    have "a = a1 @ b" "r = r2" using assms item Next rest by simp_all
    then show thesis using go item Next rest by blast
  next
    case Return
    then show thesis using download_item_events(3)[OF item] by simp
  next
    case (Raise e)
    then have "a = a1" "r = Raise e" using assms item by simp_all
    then show thesis using stop item Raise by blast
  qed
qed

lemma download_loop_progress:
  "download_loop L w env tp c ps = (a, r) \<Longrightarrow> ProgressUpdated p t \<in> set a \<Longrightarrow>
     t = tp \<and> processed c < p \<and> p \<le> processed c + int (length ps)"
proof (induction ps arbitrary: c a)
  case Nil
  then show ?case by simp
next
  case (Cons post rest)
  from Cons.prems(1) show ?case
  proof (cases rule: download_loop_Cons_cases)
    case (stop e)
    then show ?thesis using download_item_events(1)[OF stop(1)] Cons.prems(2) by fastforce
  next
    case (go a1 c1 b)
    have c1: "processed c1 = processed c + 1" using download_item_events(4)[OF go(1)] by simp
    from Cons.prems(2) go(3) consider "ProgressUpdated p t \<in> set a1" | "ProgressUpdated p t \<in> set b"
      by auto
    then show ?thesis
    proof cases
      case 1
      then show ?thesis using download_item_events(1)[OF go(1)] by fastforce
    next
      case 2
      then show ?thesis using Cons.IH[OF go(2)] c1 by fastforce
    qed
  qed
qed

lemma map_upt_shift:
  "map (\<lambda>k. f (int k)) [1..<Suc (Suc n)] = f 1 # map (\<lambda>k. f (1 + int k)) [1..<Suc n]"
proof -
  have "[1..<Suc (Suc n)] = 1 # map Suc [1..<Suc n]"
    by (simp add: map_Suc_upt upt_conv_Cons del: upt_Suc)
  then show ?thesis by (simp add: comp_def add.commute del: upt_Suc)
qed


lemma download_loop_final:
  "download_loop L w env tp c ps = (a, Next c') \<Longrightarrow>
     processed c' = processed c + int (length ps) \<and> downloaded c \<le> downloaded c'
       \<and> downloaded c' \<le> downloaded c + int (length ps)
       \<and> progress_of a = map (\<lambda>k. (processed c + int k, tp)) [1..<Suc (length ps)]"
proof (induction ps arbitrary: c a)
  case Nil
  then show ?case by simp
next
  case (Cons post rest)
  from Cons.prems show ?case
  proof (cases rule: download_loop_Cons_cases)
    case (stop e)
    then show ?thesis by simp
  next
    case (go a1 c1 b)
    have c1: "processed c1 = processed c + 1" "downloaded c \<le> downloaded c1"
      "downloaded c1 \<le> downloaded c + 1" "progress_of a1 = [(processed c + 1, tp)]"
      using download_item_events(4)[OF go(1)] by simp_all
    note ih = Cons.IH[OF go(2)]
    have pb: "progress_of b = map (\<lambda>k. (processed c1 + int k, tp)) [1..<Suc (length rest)]"
      using ih by blast
    have "progress_of a = (processed c + 1, tp) # progress_of b"
      using go(3) c1(4) by (simp add: progress_of_append)
    also have "\<dots> = (processed c + 1, tp) # map (\<lambda>k. (processed c + (1 + int k), tp)) [1..<Suc (length rest)]"
      unfolding pb c1(1) by (simp only: add.assoc)
    also have "\<dots> = map (\<lambda>k. (processed c + int k, tp)) [1..<Suc (Suc (length rest))]"
      using map_upt_shift[of "\<lambda>i. (processed c + i, tp)" "length rest"] by simp
    finally have pa: "progress_of a = map (\<lambda>k. (processed c + int k, tp)) [1..<Suc (length (post # rest))]"
      by simp
    have "processed c' = processed c + int (length (post # rest))"
      "downloaded c \<le> downloaded c'" "downloaded c' \<le> downloaded c + int (length (post # rest))"
      using ih c1 by simp_all
    then show ?thesis using pa by blast
  qed
qed

lemma download_loop_no_return: "download_loop L w env tp c ps = (a, r) \<Longrightarrow> r \<noteq> Return"
proof (induction ps arbitrary: c a)
  case Nil
  then show ?case by auto
next
  case (Cons post rest)
  from Cons.prems show ?case
  proof (cases rule: download_loop_Cons_cases)
    case (stop e)
    then show ?thesis by simp
  next
    case (go a1 c1 b)
    then show ?thesis using Cons.IH by blast
  qed
qed



lemma report_ok_first:
  assumes "k = ke \<or> (k = kp \<and> (processed c + 1) mod 10 = 0
              \<and> args = [AInt (processed c + 1), AInt tp, AInt (downloaded c + 1)])"
  shows "report_ok ke kp tp c (Suc n) k args"
  using assms unfolding report_ok_def by auto

lemma report_ok_step:
  assumes "report_ok ke kp tp c1 n k args" and "processed c1 = processed c + 1"
    and "downloaded c \<le> downloaded c1" and "downloaded c1 \<le> downloaded c + 1"
  shows "report_ok ke kp tp c (Suc n) k args"
  using assms unfolding report_ok_def by auto

lemma download_loop_status:
  "download_loop L w env tp c ps = (a, r) \<Longrightarrow> StatusChanged k args s \<in> set a \<Longrightarrow>
     report_ok ''download_error'' ''processed_downloaded'' tp c (length ps) k args"
proof (induction ps arbitrary: c a)
  case Nil
  then show ?case by simp
next
  case (Cons post rest)
  have len: "length (post # rest) = Suc (length rest)" by simp
  from Cons.prems(1) show ?case
  proof (cases rule: download_loop_Cons_cases)
    case (stop e)
    show ?thesis unfolding len
      by (rule report_ok_first,
          rule download_item_events(2)[OF stop(1), rule_format, OF Cons.prems(2)])
  next
    case (go a1 c1 b)
    have c1: "processed c1 = processed c + 1" "downloaded c \<le> downloaded c1"
      "downloaded c1 \<le> downloaded c + 1"
      using download_item_events(4)[OF go(1)] by simp_all
    have "StatusChanged k args s \<in> set a1 \<or> StatusChanged k args s \<in> set b"
      using Cons.prems(2) unfolding go(3) set_append Un_iff .
    then show ?thesis
    proof
      assume 1: "StatusChanged k args s \<in> set a1"
      show ?thesis unfolding len
        by (rule report_ok_first,
            rule download_item_events(2)[OF go(1), rule_format, OF 1])
    next
      assume 2: "StatusChanged k args s \<in> set b"
      show ?thesis unfolding len
        by (rule report_ok_step[OF Cons.IH[OF go(2) 2] c1])
    qed
  qed
qed


lemma download_phase_cases:
  assumes "download_phase L w env ps = (a, r)"
  obtains (silent) e where "a = []" "r = Raise e"
    | (no_posts) msg where "a = [StatusChanged ''no_posts'' [] msg]" "r = Return"
    | (raised) msg b e where
        "download_loop L w env (int (length ps)) \<lparr>processed = 0, downloaded = 0\<rparr> ps = (b, Raise e)"
        "a = StatusChanged ''starting_download'' [] msg # b" "r = Raise e"
    | (unfinished) msg b c e where
        "download_loop L w env (int (length ps)) \<lparr>processed = 0, downloaded = 0\<rparr> ps = (b, Next c)"
        "a = StatusChanged ''starting_download'' [] msg # b" "r = Raise e"
    | (finished) msg b c fin where
        "download_loop L w env (int (length ps)) \<lparr>processed = 0, downloaded = 0\<rparr> ps = (b, Next c)"
        "a = StatusChanged ''starting_download'' [] msg # b @
           [StatusChanged ''finished''
             [AInt (processed c), AInt (int (length ps)), AInt (downloaded c),
              AInt (int (length ps) - downloaded c), AStr (download_dir w)] fin]"
        "r = Next ()"
proof (cases "length ps = 0")
  case True
  show thesis
  proof (cases "status_plain (tr w) ''no_posts''")
    case (Inl e)
    then have "a = []" "r = Raise e"
      using assms True by (simp_all add: download_phase_def status_return_def)
    then show thesis by (rule silent)
  next
    case (Inr x)
    obtain msg where "x = StatusChanged ''no_posts'' [] msg"
      using status_plain_Inr[OF Inr] ..
    then have "a = [StatusChanged ''no_posts'' [] msg]" "r = Return"
      using assms True Inr by (simp_all add: download_phase_def status_return_def)
    then show thesis by (rule no_posts)
  qed
next
  case False
  show thesis
  proof (cases "status_plain (tr w) ''starting_download''")
    case (Inl e)
    then have "a = []" "r = Raise e" using assms False by (simp_all add: download_phase_def)
    then show thesis by (rule silent)
  next
    case (Inr x)
    obtain msg where x: "x = StatusChanged ''starting_download'' [] msg"
      using status_plain_Inr[OF Inr] ..
    obtain b r' where loop:
      "download_loop L w env (int (length ps)) \<lparr>processed = 0, downloaded = 0\<rparr> ps = (b, r')"
      by fastforce
    show thesis
    proof (cases r')
      case (Next c)
      let ?args = "[AInt (processed c), AInt (int (length ps)), AInt (downloaded c),
              AInt (int (length ps) - downloaded c), AStr (download_dir w)]"
      show thesis
      proof (cases "status L (tr w) ''finished'' ?args")
        case (Inl e)
        have "a = StatusChanged ''starting_download'' [] msg # b" "r = Raise e"
          using assms False Inr x loop Next Inl by (simp_all add: download_phase_def Let_def)
        then show thesis using unfinished loop Next by simp
      next
        case fin: (Inr y)
        obtain fmsg where y: "y = StatusChanged ''finished'' ?args fmsg"
          using status_Inr[OF fin] ..
        have "a = StatusChanged ''starting_download'' [] msg # b @ [StatusChanged ''finished'' ?args fmsg]"
          "r = Next ()"
          using assms False Inr x loop Next fin y by (simp_all add: download_phase_def Let_def)
        then show thesis using finished loop Next by simp
      qed
    next
      case Return
      then show thesis using download_loop_no_return[OF loop] by simp
    next
      case (Raise e)
      have "a = StatusChanged ''starting_download'' [] msg # b" "r = Raise e"
        using assms False Inr x loop Raise by (simp_all add: download_phase_def Let_def)
      then show thesis using raised loop Raise by simp
    qed
  qed
qed


lemma report_ok_counts:
  assumes "report_ok ke kp tp c n kp [AInt p, AInt t, AInt d]" and "kp \<noteq> ke"
    and "processed c = 0" and "downloaded c = 0"
  shows "t = tp \<and> 0 < p \<and> p \<le> int n \<and> 0 < d \<and> d \<le> p"
  using assms unfolding report_ok_def by auto

lemma report_ok_keys:
  assumes "report_ok ke kp tp c n k args"
  shows "k = ke \<or> k = kp"
  using assms unfolding report_ok_def by auto

lemma start_loop_progress:
  assumes "download_loop L w env tp \<lparr>processed = 0, downloaded = 0\<rparr> ps = (b, r)"
    and "ProgressUpdated p t \<in> set b"
  shows "t = tp \<and> 0 < p \<and> p \<le> int (length ps)"
  using download_loop_progress[OF assms] by simp

lemma start_loop_report:
  assumes "download_loop L w env tp \<lparr>processed = 0, downloaded = 0\<rparr> ps = (b, r)"
    and "StatusChanged ''processed_downloaded'' [AInt p, AInt t, AInt d] s \<in> set b"
  shows "t = tp \<and> 0 < p \<and> p \<le> int (length ps) \<and> 0 < d \<and> d \<le> p"
proof -
  have ne: "''processed_downloaded'' \<noteq> ''download_error''" by simp
  show ?thesis
    by (rule report_ok_counts[OF download_loop_status[OF assms] ne]) simp_all
qed

lemma start_loop_no_finished:
  assumes "download_loop L w env tp c ps = (b, r)"
  shows "StatusChanged ''finished'' args s \<notin> set b"
proof
  assume "StatusChanged ''finished'' args s \<in> set b"
  from report_ok_keys[OF download_loop_status[OF assms this]] show False by simp
qed


text \<open>
  Claim C9. In the download phase every progress event carries a processed count between 1 and
  the number of posts and that number as total; every report of a tenth item carries counts
  with \<open>0 \<le> downloaded \<le> processed \<le> total\<close>; the final status reports processed equal
  to total and a number of skipped posts, total minus downloaded, that is not negative; and in
  a phase that ends normally the processed counts of the progress events are 1, 2, up to the
  number of posts: one more for each item.
\<close>

theorem download_counters_invariant:
  assumes "download_phase L w env ps = (a, r)"
  shows "(\<forall>p t. ProgressUpdated p t \<in> set a \<longrightarrow> 0 < p \<and> p \<le> t \<and> t = int (length ps))
    \<and> (\<forall>p t d s. StatusChanged ''processed_downloaded'' [AInt p, AInt t, AInt d] s \<in> set a \<longrightarrow>
          0 \<le> d \<and> d \<le> p \<and> p \<le> t \<and> t = int (length ps))
    \<and> (\<forall>p t d k dir s.
          StatusChanged ''finished'' [AInt p, AInt t, AInt d, AInt k, AStr dir] s \<in> set a \<longrightarrow>
          p = t \<and> t = int (length ps) \<and> 0 \<le> d \<and> d \<le> p \<and> k = t - d \<and> 0 \<le> k)
    \<and> (r = Next () \<longrightarrow> map fst (progress_of a) = map int [1..<Suc (length ps)])"
proof -
  let ?c0 = "\<lparr>processed = 0, downloaded = 0\<rparr>"
  let ?n = "int (length ps)"
  have prog: "0 < p \<and> p \<le> t \<and> t = ?n"
    if "download_loop L w env ?n ?c0 ps = (b, r')" "ProgressUpdated p t \<in> set b" for b r' p t
    using start_loop_progress[OF that] by simp
  have rep: "0 \<le> d \<and> d \<le> p \<and> p \<le> t \<and> t = ?n"
    if "download_loop L w env ?n ?c0 ps = (b, r')"
      "StatusChanged ''processed_downloaded'' [AInt p, AInt t, AInt d] s \<in> set b" for b r' p t d s
    using start_loop_report[OF that] by simp
  from assms show ?thesis
  proof (cases rule: download_phase_cases)
    case (silent e)
    then show ?thesis by simp
  next
    case (no_posts msg)
    then show ?thesis by simp
  next
    case (raised msg b e)
    have nf: "StatusChanged ''finished'' args s \<notin> set b" for args s
      using start_loop_no_finished[OF raised(1)] .
    show ?thesis unfolding raised(2,3) using prog[OF raised(1)] rep[OF raised(1)] nf by simp
  next
    case (unfinished msg b c e)
    have nf: "StatusChanged ''finished'' args s \<notin> set b" for args s
      using start_loop_no_finished[OF unfinished(1)] .
    show ?thesis unfolding unfinished(2,3) using prog[OF unfinished(1)] rep[OF unfinished(1)] nf by simp
  next
    case (finished msg b c fin)
    have nf: "StatusChanged ''finished'' args s \<notin> set b" for args s
      using start_loop_no_finished[OF finished(1)] .
    have fc: "processed c = ?n" "0 \<le> downloaded c" "downloaded c \<le> ?n"
      "progress_of b = map (\<lambda>k. (int k, ?n)) [1..<Suc (length ps)]"
      using download_loop_final[OF finished(1)] by simp_all
    have pa: "map fst (progress_of a) = map int [1..<Suc (length ps)]"
      unfolding finished(2) using fc(4) by (simp add: progress_of_append comp_def)
    show ?thesis unfolding finished(3)
      using prog[OF finished(1)] rep[OF finished(1)] nf fc(1,2,3) pa
      unfolding finished(2) by simp
  qed
qed

theorem download_counters_invariant_witness:
  "download_phase plain_lib demo_worker (world_of empty_page) two_posts =
     ([StatusChanged ''starting_download'' [] ''Starting download'', ProgressUpdated 1 2,
       MakeDirs ''downloads/cat/images'',
       FileSaved (JStr ''http://h/a.jpg'') ''downloads/cat/images/7_a.jpg'', ProgressUpdated 2 2,
       StatusChanged ''finished'' [AInt 2, AInt 2, AInt 1, AInt 1, AStr ''downloads/cat'']
         ''Finished''],
      Next ())
   \<and> map fst (progress_of
        [StatusChanged ''starting_download'' [] ''Starting download'', ProgressUpdated 1 2,
         MakeDirs ''downloads/cat/images'',
         FileSaved (JStr ''http://h/a.jpg'') ''downloads/cat/images/7_a.jpg'', ProgressUpdated 2 2,
         StatusChanged ''finished'' [AInt 2, AInt 2, AInt 1, AInt 1, AStr ''downloads/cat'']
           ''Finished'']) = map int [1..<Suc (length two_posts)]"
proof -
  have run: "download_phase plain_lib demo_worker (world_of empty_page) two_posts =
     ([StatusChanged ''starting_download'' [] ''Starting download'', ProgressUpdated 1 2,
       MakeDirs ''downloads/cat/images'',
       FileSaved (JStr ''http://h/a.jpg'') ''downloads/cat/images/7_a.jpg'', ProgressUpdated 2 2,
       StatusChanged ''finished'' [AInt 2, AInt 2, AInt 1, AInt 1, AStr ''downloads/cat'']
         ''Finished''],
      Next ())"
    by code_simp
  show ?thesis using run download_counters_invariant[OF run] by blast
qed


section \<open>Properties of one item\<close>

text \<open>
  Claim C3. A record of the batch that is no dictionary, or a dictionary whose \<^verbatim>\<open>file_url\<close>
  is missing or falsy, is counted as processed and not as downloaded; its only event is the
  progress event; no exception leaves the item, and the loop goes on with the next record.
\<close>

theorem unusable_post_is_skipped:
  assumes "(\<forall>d. post \<noteq> JDict d) \<or> (\<exists>d. post = JDict d \<and> \<not> truthy (dict_get d ''file_url'' JNull))"
  shows "download_item L w env total_posts c post =
           ([ProgressUpdated (processed c + 1) total_posts], Next (c\<lparr>processed := processed c + 1\<rparr>))
       \<and> download_loop L w env total_posts c (post # rest) =
           (case download_loop L w env total_posts (c\<lparr>processed := processed c + 1\<rparr>) rest of
              (b, r) \<Rightarrow> (ProgressUpdated (processed c + 1) total_posts # b, r))"
proof -
  have item: "download_item L w env total_posts c post =
           ([ProgressUpdated (processed c + 1) total_posts], Next (c\<lparr>processed := processed c + 1\<rparr>))"
    using assms
  proof
    assume "\<forall>d. post \<noteq> JDict d"
    then show ?thesis by (cases post) (simp_all add: download_item_def)
  next
    assume "\<exists>d. post = JDict d \<and> \<not> truthy (dict_get d ''file_url'' JNull)"
    then obtain d where "post = JDict d" "\<not> truthy (dict_get d ''file_url'' JNull)" by (elim exE conjE)
    then show ?thesis by (simp add: download_item_def)
  qed
  show ?thesis using item by (simp split: prod.splits)
qed

theorem unusable_post_is_skipped_witness:
  "(\<exists>d. JDict [(''id'', JInt 7)] = JDict d \<and> \<not> truthy (dict_get d ''file_url'' JNull))
   \<and> download_item plain_lib demo_worker (world_of empty_page) 3 \<lparr>processed = 0, downloaded = 0\<rparr>
        (JDict [(''id'', JInt 7)]) =
      ([ProgressUpdated 1 3], Next \<lparr>processed = 1, downloaded = 0\<rparr>)"
proof -
  have h: "\<exists>d. JDict [(''id'', JInt 7)] = JDict d \<and> \<not> truthy (dict_get d ''file_url'' JNull)"
    by (simp add: dict_get_def)
  then have "(\<forall>d. JDict [(''id'', JInt 7)] \<noteq> JDict d)
      \<or> (\<exists>d. JDict [(''id'', JInt 7)] = JDict d \<and> \<not> truthy (dict_get d ''file_url'' JNull))" ..
  from unusable_post_is_skipped[OF this, of plain_lib demo_worker "world_of empty_page" 3
      "\<lparr>processed = 0, downloaded = 0\<rparr>" "[]"] h
  show ?thesis by simp
qed

lemma attempt_download_no_makedirs:
  assumes "attempt_download L w env tp c url fp = (a, r)"
  shows "MakeDirs p \<notin> set a"
  using attempt_download_shape[OF assms] by (elim disjE exE conjE) simp_all

lemma download_item_makedirs:
  assumes "download_item L w env tp c post = (a, r)" "MakeDirs p \<in> set a"
  shows "\<exists>ext\<in>allowed_exts w. p = path_join (download_dir w) (subdir_of ext)"
  using download_item_shape[OF assms(1)]
proof (elim disjE exE conjE)
  fix ext url fp b
  assume h: "ext \<in> allowed_exts w" "a = MakeDirs (path_join (download_dir w) (subdir_of ext)) # b"
    "attempt_download L w env tp (c\<lparr>processed := processed c + 1\<rparr>) url fp = (b, r)"
  from attempt_download_no_makedirs[OF h(3)] assms(2) h(2)
  have "p = path_join (download_dir w) (subdir_of ext)" by simp
  with h(1) show ?thesis by (rule_tac x = ext in bexI)
qed (use assms(2) in auto)

lemma download_loop_makedirs:
  assumes "download_loop L w env tp c ps = (a, r)" "MakeDirs p \<in> set a"
  shows "\<exists>ext\<in>allowed_exts w. p = path_join (download_dir w) (subdir_of ext)"
  using assms
proof (induction ps arbitrary: c a r)
  case Nil
  then show ?case by simp
next
  case (Cons post rest)
  from Cons.prems(1) show ?case
  proof (cases rule: download_loop_Cons_cases)
    case (stop e)
    from download_item_makedirs[OF stop(1) Cons.prems(2)] show ?thesis .
  next
    case (go a1 c1 b)
    from Cons.prems(2) go(3) have "MakeDirs p \<in> set a1 \<or> MakeDirs p \<in> set b" by simp
    then show ?thesis
    proof
      assume "MakeDirs p \<in> set a1"
      from download_item_makedirs[OF go(1) this] show ?thesis .
    next
      assume "MakeDirs p \<in> set b"
      from Cons.IH[OF go(2) this] show ?thesis .
    qed
  qed
qed

text \<open>
  Claim C8. A post whose lower-cased extension is not in the set of allowed extensions is
  skipped with its progress event alone: no directory is made for it. Every directory that
  the download loop makes is the subdirectory of an extension that is allowed.
\<close>

theorem rejected_extension_makes_no_directory:
  assumes "post = JDict d"
    and "url_path L (dict_get d ''file_url'' JNull) = Inr path"
    and "lower (snd (splitext (derive_filename L (dict_get d ''id'' (JStr [])) path)))
           \<notin> allowed_exts w"
  shows "download_item L w env total_posts c post =
           ([ProgressUpdated (processed c + 1) total_posts],
            Next (c\<lparr>processed := processed c + 1\<rparr>))
       \<and> (\<forall>ps p. MakeDirs p \<in> set (fst (download_loop L w env total_posts c ps)) \<longrightarrow>
             (\<exists>ext\<in>allowed_exts w. p = path_join (download_dir w) (subdir_of ext)))"
proof
  show "download_item L w env total_posts c post =
           ([ProgressUpdated (processed c + 1) total_posts],
            Next (c\<lparr>processed := processed c + 1\<rparr>))"
    using assms by (simp add: download_item_def Let_def)
  show "\<forall>ps p. MakeDirs p \<in> set (fst (download_loop L w env total_posts c ps)) \<longrightarrow>
             (\<exists>ext\<in>allowed_exts w. p = path_join (download_dir w) (subdir_of ext))"
  proof (intro allI impI)
    fix ps p
    assume m: "MakeDirs p \<in> set (fst (download_loop L w env total_posts c ps))"
    obtain a r where e: "download_loop L w env total_posts c ps = (a, r)" by fastforce
    from m e have "MakeDirs p \<in> set a" by simp
    from download_loop_makedirs[OF e this]
    show "\<exists>ext\<in>allowed_exts w. p = path_join (download_dir w) (subdir_of ext)" .
  qed
qed

theorem rejected_extension_makes_no_directory_witness:
  "url_path plain_lib (dict_get [(''id'', JInt 8), (''file_url'', JStr ''http://h/b.png'')] ''file_url'' JNull)
      = Inr ''/b.png''
   \<and> lower (snd (splitext (derive_filename plain_lib
        (dict_get [(''id'', JInt 8), (''file_url'', JStr ''http://h/b.png'')] ''id'' (JStr [])) ''/b.png'')))
      \<notin> allowed_exts demo_worker
   \<and> download_item plain_lib demo_worker (world_of empty_page) 2 start_counters png_post =
       ([ProgressUpdated 1 2], Next \<lparr>processed = 1, downloaded = 0\<rparr>)"
proof -
  have h1: "url_path plain_lib
      (dict_get [(''id'', JInt 8), (''file_url'', JStr ''http://h/b.png'')] ''file_url'' JNull)
      = Inr ''/b.png''"
    by code_simp
  have h2: "lower (snd (splitext (derive_filename plain_lib
        (dict_get [(''id'', JInt 8), (''file_url'', JStr ''http://h/b.png'')] ''id'' (JStr [])) ''/b.png'')))
      \<notin> allowed_exts demo_worker"
    by code_simp
  from rejected_extension_makes_no_directory[OF png_post_def h1 h2,
      of "world_of empty_page" 2 start_counters] h1 h2
  show ?thesis by (simp add: start_counters_def)
qed

lemma download_item_attempt:
  assumes "post = JDict d"
    and "truthy (dict_get d ''file_url'' JNull)"
    and "url_path L (dict_get d ''file_url'' JNull) = Inr path"
    and "fn = derive_filename L (dict_get d ''id'' (JStr [])) path"
    and "lower (snd (splitext fn)) \<in> allowed_exts w"
    and "sp = path_join (download_dir w) (subdir_of (lower (snd (splitext fn))))"
    and "os_makedirs env (processed c + 1) sp = None"
  shows "download_item L w env tp c post =
           (MakeDirs sp # fst (attempt_download L w env tp (c\<lparr>processed := processed c + 1\<rparr>)
                                 (dict_get d ''file_url'' JNull) (path_join sp fn)),
            snd (attempt_download L w env tp (c\<lparr>processed := processed c + 1\<rparr>)
                                 (dict_get d ''file_url'' JNull) (path_join sp fn)))"
  using assms by (simp add: download_item_def Let_def split: prod.splits)

lemma attempt_download_saved:
  assumes "attempt_download L w env tp c url fp = (a, r)" "FileSaved u f \<in> set a"
  shows "u = url \<and> f = fp \<and> save_file env (processed c) url fp = None"
proof (cases "save_file env (processed c) url fp")
  case (Some e)
  then have False using assms
    by (cases "status L (tr w) ''download_error'' [AJson url, AExn e]")
       (auto simp: attempt_download_def dest: status_Inr)
  then show ?thesis ..
next
  case None
  with attempt_download_shape[OF assms(1)] assms(2) show ?thesis
    by (elim disjE exE conjE) auto
qed

lemma attempt_download_raise:
  assumes "attempt_download L w env tp c url fp = (a, Raise e)"
  shows "progress_of a = []"
  using attempt_download_shape[OF assms] by (elim disjE exE conjE) auto

lemma download_item_raise:
  assumes "download_item L w env tp c post = (a, Raise e)"
  shows "progress_of a = []"
  using download_item_shape[OF assms]
proof (elim disjE exE conjE)
  fix ext url fp b
  assume "a = MakeDirs (path_join (download_dir w) (subdir_of ext)) # b"
    "attempt_download L w env tp (c\<lparr>processed := processed c + 1\<rparr>) url fp = (b, Raise e)"
  then show ?thesis using attempt_download_raise[of L w env tp _ url fp b e] by simp
qed simp_all

lemma attempt_download_report:
  assumes "save_file env (processed c) url fp = None" "processed c mod 10 = 0"
    and "status L (tr w) ''processed_downloaded''
           [AInt (processed c), AInt tp, AInt (downloaded c + 1)] = Inr x"
  shows "attempt_download L w env tp c url fp =
           ([FileSaved url fp, x, ProgressUpdated (processed c) tp],
            Next (c\<lparr>downloaded := downloaded c + 1\<rparr>))"
  using assms by (simp add: attempt_download_def)

lemma attempt_download_last:
  assumes "attempt_download L w env tp c url fp = (a, Next c1)"
  shows "a \<noteq> [] \<and> last a = ProgressUpdated (processed c) tp \<and> processed c1 = processed c"
  using attempt_download_shape[OF assms] by (elim disjE exE conjE) auto

lemma attempt_download_report_only:
  assumes "attempt_download L w env tp c url fp = (a, r)"
    and "StatusChanged ''processed_downloaded'' args s \<in> set a"
  shows "FileSaved url fp \<in> set a \<and> processed c mod 10 = 0
       \<and> args = [AInt (processed c), AInt tp, AInt (downloaded c + 1)]"
  using attempt_download_shape[OF assms(1)] assms(2)
  by (elim disjE exE conjE) auto

text \<open>
  Claim C6: what the code does for an item of the download loop. An item that the loop
  completes emits one progress event, its last event, which carries the processed count, one
  more than before. An item that raises emits no progress event and ends the loop; no item
  returns from the run. The report of the counts is emitted only by an item whose file was
  saved and whose processed count is a multiple of ten, with the counts (processed, total,
  downloaded), so a tenth item that is skipped or whose download fails emits no report; an
  item whose file was saved and whose processed count is a multiple of ten emits the report
  whenever its template can be rendered.
\<close>

theorem item_progress_and_report:
  assumes "download_item L w env total_posts c post = (a, r)"
  shows "(\<forall>c1. r = Next c1 \<longrightarrow>
            a \<noteq> [] \<and> last a = ProgressUpdated (processed c + 1) total_posts
            \<and> progress_of a = [(processed c + 1, total_posts)]
            \<and> processed c1 = processed c + 1)
       \<and> (\<forall>e. r = Raise e \<longrightarrow>
            progress_of a = []
            \<and> download_loop L w env total_posts c (post # rest) = (a, Raise e))
       \<and> r \<noteq> Return
       \<and> (\<forall>args s. StatusChanged ''processed_downloaded'' args s \<in> set a \<longrightarrow>
            (\<exists>u f. FileSaved u f \<in> set a) \<and> (processed c + 1) mod 10 = 0
            \<and> args = [AInt (processed c + 1), AInt total_posts, AInt (downloaded c + 1)])
       \<and> (\<forall>u f x. FileSaved u f \<in> set a \<and> (processed c + 1) mod 10 = 0
            \<and> status L (tr w) ''processed_downloaded''
                 [AInt (processed c + 1), AInt total_posts, AInt (downloaded c + 1)] = Inr x
            \<longrightarrow> x \<in> set a)"
proof -
  let ?c1 = "c\<lparr>processed := processed c + 1\<rparr>"
  note ev = download_item_events[OF assms]
  have n: "\<forall>c1. r = Next c1 \<longrightarrow>
            a \<noteq> [] \<and> last a = ProgressUpdated (processed c + 1) total_posts
            \<and> progress_of a = [(processed c + 1, total_posts)]
            \<and> processed c1 = processed c + 1"
  proof (intro allI impI)
    fix c1
    assume r: "r = Next c1"
    from download_item_shape[OF assms] r
    consider (skipped) "a = [ProgressUpdated (processed c + 1) total_posts]"
      | (attempt) ext url fp b where "a = MakeDirs (path_join (download_dir w) (subdir_of ext)) # b"
          "attempt_download L w env total_posts ?c1 url fp = (b, Next c1)"
      by (elim disjE exE conjE) simp_all
    then have l: "a \<noteq> [] \<and> last a = ProgressUpdated (processed c + 1) total_posts"
    proof cases
      case skipped
      then show ?thesis by simp
    next
      case attempt
      from attempt_download_last[OF attempt(2)] attempt(1) show ?thesis by simp
    qed
    from ev(4) r have "progress_of a = [(processed c + 1, total_posts)]"
      and "processed c1 = processed c + 1" by simp_all
    with l show "a \<noteq> [] \<and> last a = ProgressUpdated (processed c + 1) total_posts
            \<and> progress_of a = [(processed c + 1, total_posts)]
            \<and> processed c1 = processed c + 1" by simp
  qed
  have x: "\<forall>e. r = Raise e \<longrightarrow>
            progress_of a = []
            \<and> download_loop L w env total_posts c (post # rest) = (a, Raise e)"
  proof (intro allI impI)
    fix e
    assume r: "r = Raise e"
    from assms r have i: "download_item L w env total_posts c post = (a, Raise e)" by simp
    from download_item_raise[OF i] i
    show "progress_of a = []
            \<and> download_loop L w env total_posts c (post # rest) = (a, Raise e)" by simp
  qed
  have q1: "\<forall>args s. StatusChanged ''processed_downloaded'' args s \<in> set a \<longrightarrow>
            (\<exists>u f. FileSaved u f \<in> set a) \<and> (processed c + 1) mod 10 = 0
            \<and> args = [AInt (processed c + 1), AInt total_posts, AInt (downloaded c + 1)]"
  proof (intro allI impI)
    fix args s
    assume m: "StatusChanged ''processed_downloaded'' args s \<in> set a"
    from download_item_shape[OF assms] m
    obtain ext url fp b where h: "a = MakeDirs (path_join (download_dir w) (subdir_of ext)) # b"
      "attempt_download L w env total_posts ?c1 url fp = (b, r)"
      by (elim disjE exE conjE) auto
    from m h(1) have "StatusChanged ''processed_downloaded'' args s \<in> set b" by simp
    from attempt_download_report_only[OF h(2) this] h(1)
    show "(\<exists>u f. FileSaved u f \<in> set a) \<and> (processed c + 1) mod 10 = 0
            \<and> args = [AInt (processed c + 1), AInt total_posts, AInt (downloaded c + 1)]"
      by auto
  qed
  have q2: "\<forall>u f x. FileSaved u f \<in> set a \<and> (processed c + 1) mod 10 = 0
            \<and> status L (tr w) ''processed_downloaded''
                 [AInt (processed c + 1), AInt total_posts, AInt (downloaded c + 1)] = Inr x
            \<longrightarrow> x \<in> set a"
  proof (intro allI impI)
    fix u f x
    assume h: "FileSaved u f \<in> set a \<and> (processed c + 1) mod 10 = 0
            \<and> status L (tr w) ''processed_downloaded''
                 [AInt (processed c + 1), AInt total_posts, AInt (downloaded c + 1)] = Inr x"
    then have m: "FileSaved u f \<in> set a" and t: "(processed c + 1) mod 10 = 0"
      and st: "status L (tr w) ''processed_downloaded''
                 [AInt (processed c + 1), AInt total_posts, AInt (downloaded c + 1)] = Inr x"
      by simp_all
    from download_item_shape[OF assms] m
    obtain ext url fp b where g: "a = MakeDirs (path_join (download_dir w) (subdir_of ext)) # b"
      "attempt_download L w env total_posts ?c1 url fp = (b, r)"
      by (elim disjE exE conjE) auto
    from m g(1) have "FileSaved u f \<in> set b" by simp
    from attempt_download_saved[OF g(2) this]
    have sv: "save_file env (processed ?c1) url fp = None" by simp
    have "attempt_download L w env total_posts ?c1 url fp =
           ([FileSaved url fp, x, ProgressUpdated (processed ?c1) total_posts],
            Next (?c1\<lparr>downloaded := downloaded ?c1 + 1\<rparr>))"
      by (rule attempt_download_report[OF sv]) (use t st in simp_all)
    with g show "x \<in> set a" by auto
  qed
  show ?thesis by (rule conjI[OF n conjI[OF x conjI[OF ev(3) conjI[OF q1 q2]]]])
qed

theorem item_progress_and_report_witness:
  "download_item plain_lib demo_worker (world_of empty_page) 10 nine_done jpg_post =
     ([MakeDirs ''downloads/cat/images'',
       FileSaved (JStr ''http://h/a.jpg'') ''downloads/cat/images/7_a.jpg'',
       StatusChanged ''processed_downloaded'' [AInt 10, AInt 10, AInt 5] ''Processed'',
       ProgressUpdated 10 10],
      Next \<lparr>processed = 10, downloaded = 5\<rparr>)
   \<and> last [MakeDirs ''downloads/cat/images'',
       FileSaved (JStr ''http://h/a.jpg'') ''downloads/cat/images/7_a.jpg'',
       StatusChanged ''processed_downloaded'' [AInt 10, AInt 10, AInt 5] ''Processed'',
       ProgressUpdated 10 10] = ProgressUpdated (processed nine_done + 1) 10"
proof -
  have e: "download_item plain_lib demo_worker (world_of empty_page) 10 nine_done jpg_post =
     ([MakeDirs ''downloads/cat/images'',
       FileSaved (JStr ''http://h/a.jpg'') ''downloads/cat/images/7_a.jpg'',
       StatusChanged ''processed_downloaded'' [AInt 10, AInt 10, AInt 5] ''Processed'',
       ProgressUpdated 10 10],
      Next \<lparr>processed = 10, downloaded = 5\<rparr>)"
    by code_simp
  from item_progress_and_report[OF e] e show ?thesis by simp
qed

text \<open>
  Where the code departs from claim C6. In a batch of ten records that are all skipped, the
  tenth item emits its progress event and no report of the counts: the run has no status
  between the first and the last one. And a post whose address is a number raises in
  \<^verbatim>\<open>urlparse\<close> before any event of the item: no progress event follows it.
\<close>

theorem tenth_item_skipped_without_report:
  "download_phase plain_lib demo_worker (world_of empty_page) ten_records =
     ([StatusChanged ''starting_download'' [] ''Starting download'',
       ProgressUpdated 1 10, ProgressUpdated 2 10, ProgressUpdated 3 10, ProgressUpdated 4 10,
       ProgressUpdated 5 10, ProgressUpdated 6 10, ProgressUpdated 7 10, ProgressUpdated 8 10,
       ProgressUpdated 9 10, ProgressUpdated 10 10,
       StatusChanged ''finished'' [AInt 10, AInt 10, AInt 0, AInt 10, AStr ''downloads/cat'']
         ''Finished''],
      Next ())
   \<and> download_item plain_lib demo_worker (world_of empty_page) 1 start_counters numeric_url_post
       = ([], Raise AttributeError)"
  by code_simp

section \<open>Properties of the file name\<close>

lemma sanitize_clean: "set (sanitize s) \<inter> illegal_chars = {}"
  by (auto simp: sanitize_def illegal_chars_def)

lemma sanitize_id: "set s \<inter> illegal_chars = {} \<Longrightarrow> sanitize s = s"
  by (induction s) (auto simp: sanitize_def)

lemma splitext_no_dot:
  assumes "basename p = [] \<or> CHR ''.'' \<notin> set (basename p)"
  shows "snd (splitext p) = []"
  using assms by (auto simp: splitext_def Let_def)

lemma derive_filename_ordinary:
  assumes "basename path \<noteq> []" "CHR ''.'' \<in> set (basename path)"
  shows "derive_filename L post_id path
           = sanitize (py_str L post_id) @ ''_'' @ sanitize (basename path)"
  using assms by (simp add: derive_filename_def Let_def sanitize_def illegal_chars_def)

lemma derive_filename_synthesized:
  assumes "basename path = [] \<or> CHR ''.'' \<notin> set (basename path)"
  shows "derive_filename L post_id path = py_str L post_id @ ''.jpg''"
  using assms splitext_no_dot[OF assms] by (auto simp: derive_filename_def Let_def)

lemma jpg_clean: "set ''.jpg'' \<inter> illegal_chars = {}"
  by (simp add: illegal_chars_def)

lemma download_item_saved_name:
  assumes "download_item L w env tp c (JDict d) = (a, r)"
    and "url_path L (dict_get d ''file_url'' JNull) = Inr path"
    and "FileSaved u f \<in> set a"
    and "fn = derive_filename L (dict_get d ''id'' (JStr [])) path"
  shows "f = path_join (path_join (download_dir w) (subdir_of (lower (snd (splitext fn))))) fn"
proof -
  let ?url = "dict_get d ''file_url'' JNull"
  let ?ext = "lower (snd (splitext fn))"
  let ?sp = "path_join (download_dir w) (subdir_of ?ext)"
  let ?c1 = "c\<lparr>processed := processed c + 1\<rparr>"
  have t: "truthy ?url"
  proof (rule ccontr)
    assume "\<not> truthy ?url"
    with assms(1,3) show False by (auto simp: download_item_def)
  qed
  have ok: "?ext \<in> allowed_exts w"
  proof (rule ccontr)
    assume "?ext \<notin> allowed_exts w"
    with assms(1,2,3,4) t show False by (auto simp: download_item_def Let_def)
  qed
  have mk: "os_makedirs env (processed c + 1) ?sp = None"
  proof (rule ccontr)
    assume "os_makedirs env (processed c + 1) ?sp \<noteq> None"
    with assms(1,2,3,4) t ok show False by (auto simp: download_item_def Let_def)
  qed
  obtain b r' where at: "attempt_download L w env tp ?c1 ?url (path_join ?sp fn) = (b, r')"
    by fastforce
  from download_item_attempt[OF refl t assms(2) assms(4) ok refl mk, of tp] assms(1) at
  have "a = MakeDirs ?sp # b" by simp
  with assms(3) have "FileSaved u f \<in> set b" by simp
  with attempt_download_shape[OF at] show ?thesis by (elim disjE exE conjE) auto
qed

text \<open>
  Claim C7, as the code has it. In the ordinary branch, where the last component of the path
  has a dot, the name is the cleaned identifier, an underscore and the cleaned component, and
  has no character of the illegal set. In the synthesized branch the name is the identifier
  followed by \<^verbatim>\<open>.jpg\<close>, not cleaned: it is free of illegal characters exactly when the
  identifier is. When the identifier has no illegal character, both branches give a name
  that starts with the identifier and has no illegal character. The file that an item saves
  has this name, in the subdirectory of its extension.
\<close>

theorem stored_filename:
  shows "(basename path \<noteq> [] \<and> CHR ''.'' \<in> set (basename path) \<longrightarrow>
            derive_filename L post_id path
              = sanitize (py_str L post_id) @ ''_'' @ sanitize (basename path)
            \<and> set (derive_filename L post_id path) \<inter> illegal_chars = {})
       \<and> (basename path = [] \<or> CHR ''.'' \<notin> set (basename path) \<longrightarrow>
            derive_filename L post_id path = py_str L post_id @ ''.jpg''
            \<and> (set (derive_filename L post_id path) \<inter> illegal_chars = {})
                = (set (py_str L post_id) \<inter> illegal_chars = {}))
       \<and> (set (py_str L post_id) \<inter> illegal_chars = {} \<longrightarrow>
            take (length (py_str L post_id)) (derive_filename L post_id path) = py_str L post_id
            \<and> set (derive_filename L post_id path) \<inter> illegal_chars = {})
       \<and> (\<forall>d u f. url_path L (dict_get d ''file_url'' JNull) = Inr path
              \<and> post_id = dict_get d ''id'' (JStr [])
              \<and> FileSaved u f \<in> set (fst (download_item L w env total_posts c (JDict d)))
            \<longrightarrow> f = path_join (path_join (download_dir w)
                       (subdir_of (lower (snd (splitext (derive_filename L post_id path))))))
                     (derive_filename L post_id path))"
proof (intro conjI impI allI)
  assume h: "basename path \<noteq> [] \<and> CHR ''.'' \<in> set (basename path)"
  then show e: "derive_filename L post_id path
              = sanitize (py_str L post_id) @ ''_'' @ sanitize (basename path)"
    by (simp add: derive_filename_ordinary)
  show "set (derive_filename L post_id path) \<inter> illegal_chars = {}"
    unfolding e using sanitize_clean[of "py_str L post_id"] sanitize_clean[of "basename path"]
    by (auto simp: illegal_chars_def)
next
  assume h: "basename path = [] \<or> CHR ''.'' \<notin> set (basename path)"
  show e: "derive_filename L post_id path = py_str L post_id @ ''.jpg''"
    by (rule derive_filename_synthesized[OF h])
  show "(set (derive_filename L post_id path) \<inter> illegal_chars = {})
                = (set (py_str L post_id) \<inter> illegal_chars = {})"
    unfolding e using jpg_clean by auto
next
  assume h: "set (py_str L post_id) \<inter> illegal_chars = {}"
  show "take (length (py_str L post_id)) (derive_filename L post_id path) = py_str L post_id"
  proof (cases "basename path = [] \<or> CHR ''.'' \<notin> set (basename path)")
    case True
    then show ?thesis by (simp add: derive_filename_synthesized)
  next
    case False
    then show ?thesis using sanitize_id[OF h] by (simp add: derive_filename_ordinary)
  qed
  show "set (derive_filename L post_id path) \<inter> illegal_chars = {}"
  proof (cases "basename path = [] \<or> CHR ''.'' \<notin> set (basename path)")
    case True
    then show ?thesis using h jpg_clean by (auto simp: derive_filename_synthesized)
  next
    case False
    then have e: "derive_filename L post_id path
              = sanitize (py_str L post_id) @ ''_'' @ sanitize (basename path)"
      by (simp add: derive_filename_ordinary)
    show ?thesis
      unfolding e using sanitize_clean[of "py_str L post_id"] sanitize_clean[of "basename path"]
      by (auto simp: illegal_chars_def)
  qed
next
  fix d u f
  assume h: "url_path L (dict_get d ''file_url'' JNull) = Inr path
              \<and> post_id = dict_get d ''id'' (JStr [])
              \<and> FileSaved u f \<in> set (fst (download_item L w env total_posts c (JDict d)))"
  obtain a r where e: "download_item L w env total_posts c (JDict d) = (a, r)" by fastforce
  from h e have s: "FileSaved u f \<in> set a" by simp
  from h have p: "url_path L (dict_get d ''file_url'' JNull) = Inr path"
    and i: "derive_filename L post_id path = derive_filename L (dict_get d ''id'' (JStr [])) path"
    by simp_all
  from download_item_saved_name[OF e p s i]
  show "f = path_join (path_join (download_dir w)
                       (subdir_of (lower (snd (splitext (derive_filename L post_id path))))))
                     (derive_filename L post_id path)" .
qed

text \<open>An address with a star, in the ordinary branch.\<close>

theorem stored_filename_witness:
  "basename ''/x*y.jpg'' \<noteq> [] \<and> CHR ''.'' \<in> set (basename ''/x*y.jpg'')
   \<and> derive_filename plain_lib (JInt 7) ''/x*y.jpg'' = ''7_x_y.jpg''
   \<and> set (derive_filename plain_lib (JInt 7) ''/x*y.jpg'') \<inter> illegal_chars = {}"
proof -
  have h: "basename ''/x*y.jpg'' \<noteq> [] \<and> CHR ''.'' \<in> set (basename ''/x*y.jpg'')"
    by code_simp
  have e: "derive_filename plain_lib (JInt 7) ''/x*y.jpg'' = ''7_x_y.jpg''"
    by code_simp
  from stored_filename[of "''/x*y.jpg''" plain_lib "JInt 7"] h e
  show ?thesis by blast
qed

text \<open>
  Claim C7 as stated fails in the synthesized branch: the last component \<^verbatim>\<open>x:y\<close> of the path
  has an illegal character and no dot, and with the identifier \<^verbatim>\<open>a:b\<close> the file is saved
  under the name \<^verbatim>\<open>a:b.jpg\<close>, which has a colon.
\<close>

theorem synthesized_name_keeps_illegal_character:
  "download_item plain_lib demo_worker (world_of empty_page) 1 start_counters colon_post =
     ([MakeDirs ''downloads/cat/images'',
       FileSaved (JStr ''http://h/x:y'') ''downloads/cat/images/a:b.jpg'',
       ProgressUpdated 1 1],
      Next \<lparr>processed = 1, downloaded = 1\<rparr>)
   \<and> basename ''/x:y'' = ''x:y'' \<and> CHR '':'' \<in> illegal_chars"
  by code_simp

lemma splitext_jpg: "snd (splitext ''.jpg'') = []"
  by (simp add: splitext_def basename_def)

lemma py_str_empty: "py_str L (JStr []) = []"
  by (simp add: py_str_def)

lemma sanitize_Nil: "sanitize [] = []"
  by (simp add: sanitize_def)

lemma attempt_download_when_saved:
  assumes "save_file env (processed c) url fp = None"
    and "attempt_download L w env tp c url fp = (b, r)"
  shows "(\<exists>b'. b = FileSaved url fp # b')
       \<and> (\<forall>c2. r = Next c2 \<longrightarrow> downloaded c2 = downloaded c + 1)
       \<and> (processed c mod 10 \<noteq> 0 \<longrightarrow>
            b = [FileSaved url fp, ProgressUpdated (processed c) tp]
            \<and> r = Next (c\<lparr>downloaded := downloaded c + 1\<rparr>))"
proof (cases "processed c mod 10 = 0")
  case False
  then show ?thesis using assms by (auto simp: attempt_download_def)
next
  case True
  show ?thesis
  proof (cases "status L (tr w) ''processed_downloaded''
                  [AInt (processed c), AInt tp, AInt (downloaded c + 1)]")
    case (Inr s)
    then show ?thesis using assms True by (auto simp: attempt_download_def)
  next
    case (Inl e)
    then show ?thesis using assms True
      by (cases "status L (tr w) ''download_error'' [AJson url, AExn e]")
         (auto simp: attempt_download_def)
  qed
qed

text \<open>
  Claim C10: what the code does for a post without \<^verbatim>\<open>id\<close> whose \<^verbatim>\<open>file_url\<close> is usable. The
  identifier is the empty string and nothing raises on account of it. In the ordinary branch
  the name is an underscore and the cleaned last component of the path; the post is skipped
  when the extension of that name is not allowed, and otherwise the directory is made and the
  download is attempted under that name: when the directory can be made and the file can be
  saved, the file is saved under that name and counted as downloaded. In the synthesized
  branch the name is \<^verbatim>\<open>.jpg\<close>, whose extension is empty, so the post is skipped unless the
  empty extension is allowed: no file named \<^verbatim>\<open>.jpg\<close> is stored.
\<close>

theorem post_without_id:
  assumes "map_of d ''id'' = None"
    and "url = dict_get d ''file_url'' JNull"
    and "truthy url"
    and "url_path L url = Inr path"
    and "fn = ''_'' @ sanitize (basename path)"
    and "sp = path_join (download_dir w) (subdir_of (lower (snd (splitext fn))))"
    and "c1 = c\<lparr>processed := processed c + 1\<rparr>"
  shows "(basename path \<noteq> [] \<and> CHR ''.'' \<in> set (basename path) \<longrightarrow>
            derive_filename L (dict_get d ''id'' (JStr [])) path = fn
            \<and> download_item L w env total_posts c (JDict d) =
                (if lower (snd (splitext fn)) \<notin> allowed_exts w
                 then ([ProgressUpdated (processed c + 1) total_posts], Next c1)
                 else case os_makedirs env (processed c + 1) sp of
                        Some e \<Rightarrow> ([MakeDirs sp], Raise e)
                      | None \<Rightarrow>
                          (case attempt_download L w env total_posts c1 url (path_join sp fn) of
                             (b, r) \<Rightarrow> (MakeDirs sp # b, r)))
            \<and> (lower (snd (splitext fn)) \<in> allowed_exts w
                 \<and> os_makedirs env (processed c + 1) sp = None
                 \<and> save_file env (processed c + 1) url (path_join sp fn) = None \<longrightarrow>
                 (\<exists>b r. download_item L w env total_posts c (JDict d) =
                           (MakeDirs sp # FileSaved url (path_join sp fn) # b, r)
                        \<and> (\<forall>c2. r = Next c2 \<longrightarrow> downloaded c2 = downloaded c + 1))
                 \<and> ((processed c + 1) mod 10 \<noteq> 0 \<longrightarrow>
                      download_item L w env total_posts c (JDict d) =
                        ([MakeDirs sp, FileSaved url (path_join sp fn),
                          ProgressUpdated (processed c + 1) total_posts],
                         Next (c1\<lparr>downloaded := downloaded c + 1\<rparr>)))))
       \<and> (basename path = [] \<or> CHR ''.'' \<notin> set (basename path) \<longrightarrow>
            derive_filename L (dict_get d ''id'' (JStr [])) path = ''.jpg''
            \<and> ([] \<notin> allowed_exts w \<longrightarrow>
                 download_item L w env total_posts c (JDict d) =
                   ([ProgressUpdated (processed c + 1) total_posts], Next c1)))"
proof -
  have i: "dict_get d ''id'' (JStr []) = JStr []"
    using assms(1) by (simp add: dict_get_def)
  let ?skip = "([ProgressUpdated (processed c + 1) total_posts], Next c1)"
  let ?ext = "lower (snd (splitext fn))"
  have ordinary: "derive_filename L (dict_get d ''id'' (JStr [])) path = fn"
    if "basename path \<noteq> [] \<and> CHR ''.'' \<in> set (basename path)"
    using that assms(5) unfolding i
    by (simp add: derive_filename_ordinary py_str_empty sanitize_Nil)
  have synthesized: "derive_filename L (dict_get d ''id'' (JStr [])) path = ''.jpg''"
    if "basename path = [] \<or> CHR ''.'' \<notin> set (basename path)"
    using derive_filename_synthesized[OF that, of L "JStr []"] unfolding i
    by (simp add: py_str_empty)
  have rejected: "download_item L w env total_posts c (JDict d) = ?skip"
    if "lower (snd (splitext (derive_filename L (dict_get d ''id'' (JStr [])) path)))
          \<notin> allowed_exts w"
    using that assms(2,3,4,7) by (simp add: download_item_def Let_def)
  have whole: "download_item L w env total_posts c (JDict d) =
                (if ?ext \<notin> allowed_exts w then ?skip
                 else case os_makedirs env (processed c + 1) sp of
                        Some e \<Rightarrow> ([MakeDirs sp], Raise e)
                      | None \<Rightarrow>
                          (case attempt_download L w env total_posts c1 url (path_join sp fn) of
                             (b, r) \<Rightarrow> (MakeDirs sp # b, r)))"
    if dfn: "derive_filename L (dict_get d ''id'' (JStr [])) path = fn"
  proof -
    have t: "truthy (dict_get d ''file_url'' JNull)"
      and u: "url_path L (dict_get d ''file_url'' JNull) = Inr path"
      using assms(2,3,4) by simp_all
    show ?thesis unfolding assms(2,6,7) dfn[symmetric] using t u
      by (simp add: download_item_def Let_def)
  qed
  have saved: "(\<exists>b r. download_item L w env total_posts c (JDict d) =
                           (MakeDirs sp # FileSaved url (path_join sp fn) # b, r)
                        \<and> (\<forall>c2. r = Next c2 \<longrightarrow> downloaded c2 = downloaded c + 1))
                 \<and> ((processed c + 1) mod 10 \<noteq> 0 \<longrightarrow>
                      download_item L w env total_posts c (JDict d) =
                        ([MakeDirs sp, FileSaved url (path_join sp fn),
                          ProgressUpdated (processed c + 1) total_posts],
                         Next (c1\<lparr>downloaded := downloaded c + 1\<rparr>)))"
    if d: "derive_filename L (dict_get d ''id'' (JStr [])) path = fn"
      and h: "?ext \<in> allowed_exts w \<and> os_makedirs env (processed c + 1) sp = None
          \<and> save_file env (processed c + 1) url (path_join sp fn) = None"
  proof -
    obtain b r where at: "attempt_download L w env total_posts c1 url (path_join sp fn) = (b, r)"
      by fastforce
    from whole[OF d] h at
    have e: "download_item L w env total_posts c (JDict d) = (MakeDirs sp # b, r)" by simp
    from h assms(7) have sv: "save_file env (processed c1) url (path_join sp fn) = None" by simp
    from attempt_download_when_saved[OF sv at] obtain b' where
      b: "b = FileSaved url (path_join sp fn) # b'"
      and d2: "\<forall>c2. r = Next c2 \<longrightarrow> downloaded c2 = downloaded c1 + 1"
      and nt: "processed c1 mod 10 \<noteq> 0 \<longrightarrow>
            b = [FileSaved url (path_join sp fn), ProgressUpdated (processed c1) total_posts]
            \<and> r = Next (c1\<lparr>downloaded := downloaded c1 + 1\<rparr>)"
      by (elim conjE exE)
    have dc: "downloaded c1 = downloaded c" and pc: "processed c1 = processed c + 1"
      using assms(7) by simp_all
    have p1: "\<exists>b r. download_item L w env total_posts c (JDict d) =
                           (MakeDirs sp # FileSaved url (path_join sp fn) # b, r)
                        \<and> (\<forall>c2. r = Next c2 \<longrightarrow> downloaded c2 = downloaded c + 1)"
    proof (intro exI conjI)
      show "download_item L w env total_posts c (JDict d) =
                           (MakeDirs sp # FileSaved url (path_join sp fn) # b', r)"
        using e b by simp
      show "\<forall>c2. r = Next c2 \<longrightarrow> downloaded c2 = downloaded c + 1"
        using d2 unfolding dc .
    qed
    have p2: "(processed c + 1) mod 10 \<noteq> 0 \<longrightarrow>
                      download_item L w env total_posts c (JDict d) =
                        ([MakeDirs sp, FileSaved url (path_join sp fn),
                          ProgressUpdated (processed c + 1) total_posts],
                         Next (c1\<lparr>downloaded := downloaded c + 1\<rparr>))"
      using nt e unfolding dc pc by simp
    show ?thesis by (rule conjI[OF p1 p2])
  qed
  show ?thesis
  proof (intro conjI impI)
    assume h: "basename path \<noteq> [] \<and> CHR ''.'' \<in> set (basename path)"
    show "derive_filename L (dict_get d ''id'' (JStr [])) path = fn" by (rule ordinary[OF h])
    show "download_item L w env total_posts c (JDict d) =
                (if ?ext \<notin> allowed_exts w then ?skip
                 else case os_makedirs env (processed c + 1) sp of
                        Some e \<Rightarrow> ([MakeDirs sp], Raise e)
                      | None \<Rightarrow>
                          (case attempt_download L w env total_posts c1 url (path_join sp fn) of
                             (b, r) \<Rightarrow> (MakeDirs sp # b, r)))"
      by (rule whole[OF ordinary[OF h]])
    {
      assume g: "?ext \<in> allowed_exts w \<and> os_makedirs env (processed c + 1) sp = None
          \<and> save_file env (processed c + 1) url (path_join sp fn) = None"
      from saved[OF ordinary[OF h] g]
      show "\<exists>b r. download_item L w env total_posts c (JDict d) =
                           (MakeDirs sp # FileSaved url (path_join sp fn) # b, r)
                        \<and> (\<forall>c2. r = Next c2 \<longrightarrow> downloaded c2 = downloaded c + 1)"
        by (rule conjunct1)
      assume "(processed c + 1) mod 10 \<noteq> 0"
      with saved[OF ordinary[OF h] g]
      show "download_item L w env total_posts c (JDict d) =
                        ([MakeDirs sp, FileSaved url (path_join sp fn),
                          ProgressUpdated (processed c + 1) total_posts],
                         Next (c1\<lparr>downloaded := downloaded c + 1\<rparr>))"
        by simp
    }
  next
    assume h: "basename path = [] \<or> CHR ''.'' \<notin> set (basename path)"
    show "derive_filename L (dict_get d ''id'' (JStr [])) path = ''.jpg''"
      by (rule synthesized[OF h])
    assume "[] \<notin> allowed_exts w"
    then show "download_item L w env total_posts c (JDict d) = ?skip"
      using rejected synthesized[OF h] by (simp add: splitext_jpg lower_def)
  qed
qed

theorem post_without_id_witness:
  "map_of [(''file_url'', JStr ''http://h/a.jpg'')] ''id'' = None
   \<and> truthy (dict_get [(''file_url'', JStr ''http://h/a.jpg'')] ''file_url'' JNull)
   \<and> url_path plain_lib (dict_get [(''file_url'', JStr ''http://h/a.jpg'')] ''file_url'' JNull)
       = Inr ''/a.jpg''
   \<and> basename ''/a.jpg'' \<noteq> [] \<and> CHR ''.'' \<in> set (basename ''/a.jpg'')
   \<and> derive_filename plain_lib
        (dict_get [(''file_url'', JStr ''http://h/a.jpg'')] ''id'' (JStr [])) ''/a.jpg''
       = ''_'' @ sanitize (basename ''/a.jpg'')
   \<and> download_item plain_lib demo_worker (world_of empty_page) 1 start_counters noid_post =
       ([MakeDirs ''downloads/cat/images'',
         FileSaved (JStr ''http://h/a.jpg'') ''downloads/cat/images/_a.jpg'',
         ProgressUpdated 1 1],
        Next \<lparr>processed = 1, downloaded = 1\<rparr>)"
proof -
  have h1: "map_of [(''file_url'', JStr ''http://h/a.jpg'')] ''id'' = None" by simp
  have h2: "truthy (dict_get [(''file_url'', JStr ''http://h/a.jpg'')] ''file_url'' JNull)"
    by code_simp
  have h3: "url_path plain_lib
      (dict_get [(''file_url'', JStr ''http://h/a.jpg'')] ''file_url'' JNull) = Inr ''/a.jpg''"
    by code_simp
  have h4: "basename ''/a.jpg'' \<noteq> [] \<and> CHR ''.'' \<in> set (basename ''/a.jpg'')"
    by code_simp
  have e: "download_item plain_lib demo_worker (world_of empty_page) 1 start_counters noid_post =
       ([MakeDirs ''downloads/cat/images'',
         FileSaved (JStr ''http://h/a.jpg'') ''downloads/cat/images/_a.jpg'',
         ProgressUpdated 1 1],
        Next \<lparr>processed = 1, downloaded = 1\<rparr>)"
    by code_simp
  from post_without_id[OF h1 refl h2 h3 refl refl refl, of demo_worker "world_of empty_page" 1
      start_counters] h4
  have "derive_filename plain_lib
        (dict_get [(''file_url'', JStr ''http://h/a.jpg'')] ''id'' (JStr [])) ''/a.jpg''
       = ''_'' @ sanitize (basename ''/a.jpg'')"
    by blast
  with h1 h2 h3 h4 e show ?thesis by blast
qed

text \<open>
  Where the code departs from claim C10. A post without identifier whose address has no
  extension is skipped: its only event is the progress event, and no file named \<^verbatim>\<open>.jpg\<close> is
  stored. The post with the same address and the identifier 7 is saved as \<^verbatim>\<open>7.jpg\<close>.
\<close>

theorem post_without_id_and_extension_is_skipped:
  "download_item plain_lib demo_worker (world_of empty_page) 1 start_counters noid_noext_post =
     ([ProgressUpdated 1 1], Next \<lparr>processed = 1, downloaded = 0\<rparr>)
   \<and> download_item plain_lib demo_worker (world_of empty_page) 1 start_counters noext_post =
     ([MakeDirs ''downloads/cat/images'',
       FileSaved (JStr ''http://h/pic'') ''downloads/cat/images/7.jpg'',
       ProgressUpdated 1 1],
      Next \<lparr>processed = 1, downloaded = 1\<rparr>)"
  by code_simp

section \<open>Properties of the fetch phase\<close>



























section \<open>Properties of the run\<close>











end
